theory Spec2Isabelle
  imports Main
begin

section \<open>Python strings\<close>

text \<open>
  A Python \<open>str\<close> is modelled as a \<^typ>\<open>string\<close> whose characters are the code points
  U+0000 .. U+00FF, one \<^typ>\<open>char\<close> per code point, so that \<open>len\<close> is \<^const>\<open>length\<close>.
  Strings with code points beyond U+00FF are outside the model.
\<close>

text \<open>\<open>str.isspace\<close> on one code point below U+0100.\<close>

definition is_space :: "char \<Rightarrow> bool" where
  "is_space c = (c \<in> set [CHR 0x09, CHR 0x0A, CHR 0x0B, CHR 0x0C, CHR 0x0D,
                          CHR 0x1C, CHR 0x1D, CHR 0x1E, CHR 0x1F, CHR 0x20,
                          CHR 0x85, CHR 0xA0])"

text \<open>\<open>str.isdigit\<close> on one code point below U+0100: the decimal digits and the
  superscripts U+00B2, U+00B3 and U+00B9.\<close>

definition is_digit_char :: "char \<Rightarrow> bool" where
  "is_digit_char c = (c \<in> set ''0123456789'' \<or> c \<in> set [CHR 0xB2, CHR 0xB3, CHR 0xB9])"

text \<open>\<open>s.isdigit()\<close>: every character is a digit and there is at least one.\<close>

definition isdigit :: "string \<Rightarrow> bool" where
  "isdigit s = (s \<noteq> [] \<and> list_all is_digit_char s)"

text \<open>\<open>s.startswith(p)\<close>.\<close>

fun startswith :: "string \<Rightarrow> string \<Rightarrow> bool" where
  "startswith s [] = True"
| "startswith [] (p # ps) = False"
| "startswith (c # cs) (p # ps) = (c = p \<and> startswith cs ps)"

text \<open>\<open>sub in s\<close>.\<close>

fun py_in :: "string \<Rightarrow> string \<Rightarrow> bool" where
  "py_in sub [] = (sub = [])"
| "py_in sub (c # cs) = (startswith (c # cs) sub \<or> py_in sub cs)"

text \<open>\<open>s.replace(old, new)\<close>: the occurrences of \<open>old\<close> are found from left to right and
  do not overlap; with an empty \<open>old\<close>, \<open>new\<close> is put before every character and at the end.\<close>

function py_replace :: "string \<Rightarrow> string \<Rightarrow> string \<Rightarrow> string" where
  "py_replace [] old new = (if old = [] then new else [])"
| "py_replace (c # cs) old new =
     (if old = [] then new @ c # py_replace cs old new
      else if startswith (c # cs) old
        then new @ py_replace (drop (length old) (c # cs)) old new
      else c # py_replace cs old new)"
  by pat_completeness auto
termination
  by (relation "measure (\<lambda>(s, old, new). length s)") auto

text \<open>\<open>s.strip()\<close>: whitespace removed at both ends.\<close>

definition strip :: "string \<Rightarrow> string" where
  "strip s = rev (dropWhile is_space (rev (dropWhile is_space s)))"

text \<open>\<open>s.split(sep)\<close> for a one-character separator: empty pieces are kept. The second
  argument is the piece being read.\<close>

fun split_on :: "char \<Rightarrow> string \<Rightarrow> string \<Rightarrow> string list" where
  "split_on sep cur [] = [cur]"
| "split_on sep cur (c # cs) =
     (if c = sep then cur # split_on sep [] cs else split_on sep (cur @ [c]) cs)"

text \<open>The maximal runs of characters that are not separators, in order. With
  \<^const>\<open>is_space\<close> as the separator test and an empty piece to start with this is
  \<open>s.split()\<close>, which splits at runs of whitespace and returns no empty piece.\<close>

fun runs :: "(char \<Rightarrow> bool) \<Rightarrow> string \<Rightarrow> string \<Rightarrow> string list" where
  "runs sep cur [] = (if cur = [] then [] else [cur])"
| "runs sep cur (c # cs) =
     (if sep c then (if cur = [] then runs sep [] cs else cur # runs sep [] cs)
      else runs sep (cur @ [c]) cs)"

definition split_ws :: "string \<Rightarrow> string list" where
  "split_ws s = runs is_space [] s"

section \<open>Contacts and phone numbers\<close>

text \<open>A contact is a Python \<open>dict\<close> from field names to strings: an association list in
  insertion order, which is the order \<open>contact.items()\<close> iterates in.\<close>

type_synonym contact = "(string \<times> string) list"

text \<open>\<open>contact.replace('+', '').isdigit()\<close>, the test of \<open>search_contact\<close>, \<open>add_phone\<close>
  and \<open>add_bulk_phones\<close> for a phone number.\<close>

definition is_phone :: "string \<Rightarrow> bool" where
  "is_phone contact = isdigit (py_replace contact ''+'' '''')"

text \<open>The text \<open>search_contact\<close> types into the search box (lines 136 to 149).\<close>

definition search_text :: "string \<Rightarrow> string" where
  "search_text contact =
     (if is_phone contact then
        (if 7 < length contact \<and> \<not> startswith contact ''+'' then ''+'' @ contact
         else contact)
      else contact)"

text \<open>What \<open>add_phone\<close> does with the text of the entry field.\<close>

datatype add_phone_result =
    Ignored
  | InvalidInput
  | Added "contact list"

text \<open>\<open>add_phone\<close> (lines 657 to 677): the entry text and the list \<open>manual_contacts\<close>. The
  list box shows the names of \<open>manual_contacts\<close> and is not modelled apart.\<close>

definition add_phone :: "string \<Rightarrow> contact list \<Rightarrow> add_phone_result" where
  "add_phone entry manual_contacts =
     (let phone = strip entry in
      if phone = [] then Ignored
      else if \<not> isdigit (py_replace phone ''+'' '''') then InvalidInput
      else Added (manual_contacts @
             [[(''name'', if \<not> startswith phone ''+'' \<and> 7 < length phone
                          then ''+'' @ phone else phone)]]))"

text \<open>The body of the two loops of \<open>add_bulk_phones\<close> (lines 620 to 641) for one
  candidate: the state is \<open>manual_contacts\<close>, \<open>added_count\<close> and \<open>invalid_count\<close>.\<close>

definition add_number :: "contact list \<times> nat \<times> nat \<Rightarrow> string \<Rightarrow> contact list \<times> nat \<times> nat" where
  "add_number st number =
     (case st of (manual_contacts, added_count, invalid_count) \<Rightarrow>
        let clean_number = strip number in
        if clean_number = [] then st
        else if \<not> isdigit (py_replace clean_number ''+'' '''')
          then (manual_contacts, added_count, invalid_count + 1)
        else (manual_contacts @
                [[(''name'', if \<not> startswith clean_number ''+'' \<and> 7 < length clean_number
                             then ''+'' @ clean_number else clean_number)]],
              added_count + 1, invalid_count))"

text \<open>The candidates of \<open>add_bulk_phones\<close> (lines 607 to 623): the text is stripped,
  commas and semicolons become newlines, the text is split at newlines and every line at
  whitespace.\<close>

definition potential_numbers :: "string \<Rightarrow> string list" where
  "potential_numbers text =
     concat (map split_ws
       (split_on CHR 0x0A []
          (py_replace (py_replace (strip text) '','' [CHR 0x0A]) '';'' [CHR 0x0A])))"

text \<open>\<open>add_bulk_phones\<close> (lines 605 to 641): the new \<open>manual_contacts\<close> with the two counts
  that choose the dialog shown at the end; nothing happens on a blank text.\<close>

definition add_bulk_phones :: "string \<Rightarrow> contact list \<Rightarrow> contact list \<times> nat \<times> nat" where
  "add_bulk_phones text manual_contacts =
     (if strip text = [] then (manual_contacts, 0, 0)
      else foldl add_number (manual_contacts, 0, 0) (potential_numbers text))"

section \<open>Message templates\<close>

definition placeholder :: "string \<Rightarrow> string" where
  "placeholder key = ''{'' @ key @ ''}''"

text \<open>The loop over \<open>contact.items()\<close> of \<open>send_bulk_messages\<close> (lines 280 to 282).\<close>

fun custom_fields :: "contact \<Rightarrow> string \<Rightarrow> string" where
  "custom_fields [] personalized_message = personalized_message"
| "custom_fields ((key, val) # items) personalized_message =
     custom_fields items
       (if key \<noteq> ''name'' \<and> py_in (placeholder key) personalized_message
        then py_replace personalized_message (placeholder key) val
        else personalized_message)"

text \<open>The personalised message of \<open>send_bulk_messages\<close> (lines 275 to 282).\<close>

definition personalize :: "string \<Rightarrow> string \<Rightarrow> contact \<Rightarrow> string" where
  "personalize message contact_name contact =
     custom_fields contact
       (if py_in ''{name}'' message then py_replace message ''{name}'' contact_name
        else message)"

text \<open>The substitution as the specification words it, in one pass over the template: a
  placeholder is an opening brace, a field name up to the next closing brace, and that
  brace; the placeholder of a field the record has is replaced by the field's value, and
  every other character, also of a placeholder whose field is absent, is kept.\<close>

function substitute :: "(string \<rightharpoonup> string) \<Rightarrow> string \<Rightarrow> string" where
  "substitute fields [] = []"
| "substitute fields (c # cs) =
     (if c = CHR ''{'' \<and> CHR ''}'' \<in> set cs then
        (case fields (takeWhile (\<lambda>x. x \<noteq> CHR ''}'') cs) of
           Some v \<Rightarrow> v @ substitute fields (tl (dropWhile (\<lambda>x. x \<noteq> CHR ''}'') cs))
         | None \<Rightarrow> c # substitute fields cs)
      else c # substitute fields cs)"
  by pat_completeness auto
termination
proof (relation "measure (\<lambda>(fields, s). length s)")
  show "wf (measure (\<lambda>(fields, s). length s))"
    by simp
next
  fix fields :: "string \<rightharpoonup> string" and c :: char and cs :: string and v :: string
  have "length (tl (dropWhile (\<lambda>x. x \<noteq> CHR ''}'') cs)) \<le> length cs"
    using length_dropWhile_le [of "\<lambda>x. x \<noteq> CHR ''}''" cs] by simp
  then show "((fields, tl (dropWhile (\<lambda>x. x \<noteq> CHR ''}'') cs)), (fields, c # cs))
               \<in> measure (\<lambda>(fields, s). length s)"
    by simp
qed simp_all


section \<open>The browser and the state of the sender\<close>

type_synonym xpath = string

datatype element = Element nat

text \<open>The arguments of \<open>send_keys\<close>: a text, \<open>Keys.SHIFT + Keys.ENTER\<close>, \<open>Keys.BACKSPACE\<close>
  and \<open>Keys.ENTER\<close>.\<close>

datatype keys = Text string | ShiftEnter | Backspace | Enter

text \<open>The exceptions, all of them subclasses of \<open>Exception\<close>: the two Selenium classes
  the code names, every other one (\<open>WebDriverException\<close>, \<open>AttributeError\<close> on a driver
  that was never started, \<open>OSError\<close>, ...), and the \<open>KeyError\<close> of a dictionary.\<close>

datatype exn = TimeoutException | NoSuchElementException | OtherException | KeyError

text \<open>The lines given to \<open>self.log\<close>, one constructor for each message of the source with
  the values its f-string prints.\<close>

datatype logline =
    CouldNotFindSearchBox
  | SearchingForPhoneNumber string
  | SearchingForContact string
  | CouldNotFindContact string
  | ErrorSearchingForContact string exn
  | CouldNotFindMessageBox
  | FailedToSendMessage exn
  | NoContactsFound
  | SendingMessagesTo nat
  | SendingTo nat nat string
  | MessageSentTo string
  | FailedToSendMessageTo string
  | CouldNotFindContactCross string
  | OperationCancelled
  | Done nat nat
  | CsvMustHaveNameColumn
  | ErrorLoadingContactsFile exn
  | BrowserClosed

text \<open>What the sender does, in order: its log lines, its calls of the browser driver
  and its sleeps.\<close>

datatype event =
    Log logline
  | WaitUntil xpath
  | IsDisplayed element
  | Clear element
  | SendKeys element keys
  | FindElements xpath
  | Click element
  | Get string
  | Sleep nat
  | DriverQuit

text \<open>The behaviour of everything outside the sender: what each call of the driver
  answers, an exception or a value, and when the user interface thread sets
  \<open>cancel_requested\<close>. The time of a call is the number of events before it, so an
  environment may answer the same call differently at different times.\<close>

record env =
  wait_until_r :: "nat \<Rightarrow> xpath \<Rightarrow> exn + element"
  is_displayed_r :: "nat \<Rightarrow> element \<Rightarrow> exn + bool"
  clear_r :: "nat \<Rightarrow> element \<Rightarrow> exn + unit"
  send_keys_r :: "nat \<Rightarrow> element \<Rightarrow> keys \<Rightarrow> exn + unit"
  find_elements_r :: "nat \<Rightarrow> xpath \<Rightarrow> exn + element list"
  click_r :: "nat \<Rightarrow> element \<Rightarrow> exn + unit"
  get_r :: "nat \<Rightarrow> string \<Rightarrow> exn + unit"
  quit_r :: "nat \<Rightarrow> exn + unit"
  cancel_at :: "nat \<Rightarrow> bool"

text \<open>The fields of \<open>WhatsAppBulkSender\<close> with the events so far. \<open>driver\<close> is \<open>None\<close> or
  the handle of the browser.\<close>

record world =
  trace :: "event list"
  cancel_requested :: bool
  is_running :: bool
  driver :: "nat option"

text \<open>One event: it is recorded, and the other thread may request cancellation while
  it happens.\<close>

definition emit :: "env \<Rightarrow> event \<Rightarrow> world \<Rightarrow> world" where
  "emit E ev w =
     w\<lparr>trace := trace w @ [ev],
       cancel_requested := (cancel_requested w \<or> cancel_at E (length (trace w)))\<rparr>"

text \<open>\<open>self.log\<close> hands the line to the callback of the user interface and prints it
  (lines 42 to 46). Both are taken to return normally, so a line is only recorded.\<close>

definition log :: "env \<Rightarrow> logline \<Rightarrow> world \<Rightarrow> world" where
  "log E line w = emit E (Log line) w"

definition sleep :: "env \<Rightarrow> nat \<Rightarrow> world \<Rightarrow> world" where
  "sleep E n w = emit E (Sleep n) w"

text \<open>\<open>self.wait.until(EC.presence_of_element_located((By.XPATH, xpath)))\<close>.\<close>

definition wait_until :: "env \<Rightarrow> xpath \<Rightarrow> world \<Rightarrow> (exn + element) \<times> world" where
  "wait_until E xp w = (wait_until_r E (length (trace w)) xp, emit E (WaitUntil xp) w)"

definition is_displayed :: "env \<Rightarrow> element \<Rightarrow> world \<Rightarrow> (exn + bool) \<times> world" where
  "is_displayed E el w = (is_displayed_r E (length (trace w)) el, emit E (IsDisplayed el) w)"

definition clear :: "env \<Rightarrow> element \<Rightarrow> world \<Rightarrow> (exn + unit) \<times> world" where
  "clear E el w = (clear_r E (length (trace w)) el, emit E (Clear el) w)"

definition send_keys :: "env \<Rightarrow> element \<Rightarrow> keys \<Rightarrow> world \<Rightarrow> (exn + unit) \<times> world" where
  "send_keys E el k w = (send_keys_r E (length (trace w)) el k, emit E (SendKeys el k) w)"

definition find_elements :: "env \<Rightarrow> xpath \<Rightarrow> world \<Rightarrow> (exn + element list) \<times> world" where
  "find_elements E xp w =
     (find_elements_r E (length (trace w)) xp, emit E (FindElements xp) w)"

definition click :: "env \<Rightarrow> element \<Rightarrow> world \<Rightarrow> (exn + unit) \<times> world" where
  "click E el w = (click_r E (length (trace w)) el, emit E (Click el) w)"

definition get :: "env \<Rightarrow> string \<Rightarrow> world \<Rightarrow> (exn + unit) \<times> world" where
  "get E url w = (get_r E (length (trace w)) url, emit E (Get url) w)"

definition driver_quit :: "env \<Rightarrow> world \<Rightarrow> (exn + unit) \<times> world" where
  "driver_quit E w = (quit_r E (length (trace w)), emit E DriverQuit w)"

text \<open>Sequencing of two steps: an exception of the first step ends the sequence.\<close>

definition bnd ::
  "(world \<Rightarrow> (exn + 'a) \<times> world) \<Rightarrow> ('a \<Rightarrow> world \<Rightarrow> (exn + 'b) \<times> world)
     \<Rightarrow> world \<Rightarrow> (exn + 'b) \<times> world" where
  "bnd m f w = (case m w of (Inl e, w1) \<Rightarrow> (Inl e, w1) | (Inr x, w1) \<Rightarrow> f x w1)"

section \<open>search_contact\<close>

definition search_xpath :: "xpath list" where
  \<open>search_xpath =
     [''//div[@contenteditable="true"][@data-tab="3"]'',
      ''//div[@role="textbox"][@contenteditable="true"]'',
      ''//div[contains(@class, "selectable-text")][@contenteditable="true"]'']\<close>

definition xpath_patterns :: "string \<Rightarrow> xpath list" where
  \<open>xpath_patterns contact =
     [''//span[@title="'' @ contact @ ''"]'',
      ''//span[contains(@title, "'' @ contact @ ''")]'',
      ''//div[contains(@title, "'' @ contact @ ''")]'',
      ''//div[contains(@class, "matched-text")]/..'',
      ''//div[contains(@class, "chat-title")]'']\<close>

definition message_input :: xpath where
  \<open>message_input = ''//div[@contenteditable="true"][@data-tab="10"]''\<close>

definition deep_link :: "string \<Rightarrow> string" where
  "deep_link clean_number = ''https://web.whatsapp.com/send?phone='' @ clean_number"

text \<open>The loop that looks for an input box (lines 119 to 126, and 210 to 217 in
  \<open>send_message\<close>): the third argument is the variable \<open>search_box\<close>. An exception of the
  wait or of \<open>is_displayed\<close> goes on with the next path; \<open>search_box\<close> keeps an element that
  was found and is not displayed.\<close>

fun find_box :: "env \<Rightarrow> xpath list \<Rightarrow> element option \<Rightarrow> world \<Rightarrow> element option \<times> world" where
  "find_box E [] box w = (box, w)"
| "find_box E (xp # xps) box w =
     (case wait_until E xp w of
        (Inl e, w1) \<Rightarrow> find_box E xps box w1
      | (Inr el, w1) \<Rightarrow>
          (case is_displayed E el w1 of
             (Inl e, w2) \<Rightarrow> find_box E xps (Some el) w2
           | (Inr shown, w2) \<Rightarrow>
               if shown then (Some el, w2) else find_box E xps (Some el) w2))"

text \<open>The loop over the selector strategies (lines 164 to 174): \<open>Some b\<close> when the
  function returns \<open>b\<close> from inside the loop, \<open>None\<close> when every strategy has failed.\<close>

fun click_first :: "env \<Rightarrow> xpath list \<Rightarrow> world \<Rightarrow> bool option \<times> world" where
  "click_first E [] w = (None, w)"
| "click_first E (xp # xps) w =
     (if cancel_requested w then (Some False, w)
      else case find_elements E xp w of
          (Inl e, w1) \<Rightarrow> click_first E xps w1
        | (Inr [], w1) \<Rightarrow> click_first E xps w1
        | (Inr (el # els), w1) \<Rightarrow>
            (case click E el w1 of
               (Inl e, w2) \<Rightarrow> click_first E xps w2
             | (Inr u, w2) \<Rightarrow> (Some True, sleep E 1 w2)))"

text \<open>The direct URL (lines 177 to 185).\<close>

definition direct_url :: "env \<Rightarrow> string \<Rightarrow> world \<Rightarrow> (exn + bool option) \<times> world" where
  "direct_url E contact =
     (if is_phone contact \<and> 7 < length contact then
        bnd (get E (deep_link (py_replace contact ''+'' ''''))) (\<lambda>u.
        bnd (wait_until E message_input) (\<lambda>el w.
        (Inr (Some True), sleep E 2 w)))
      else (\<lambda>w. (Inr None, w)))"

text \<open>The body of the inner \<open>try\<close> (lines 154 to 185): \<open>Some b\<close> when it returns \<open>b\<close>,
  \<open>None\<close> when it falls through.\<close>

definition open_chat :: "env \<Rightarrow> string \<Rightarrow> world \<Rightarrow> (exn + bool option) \<times> world" where
  "open_chat E contact w =
     (case click_first E (xpath_patterns contact) w of
        (Some b, w1) \<Rightarrow> (Inr (Some b), w1)
      | (None, w1) \<Rightarrow> direct_url E contact w1)"

text \<open>The inner \<open>try\<close> with its handler and the two lines after it (lines 154 to 191).\<close>

definition find_and_click :: "env \<Rightarrow> string \<Rightarrow> world \<Rightarrow> (exn + bool) \<times> world" where
  "find_and_click E contact w =
     (case open_chat E contact w of
        (Inr (Some b), w1) \<Rightarrow> (Inr b, w1)
      | (Inr None, w1) \<Rightarrow> (Inr False, log E (CouldNotFindContact contact) w1)
      | (Inl e, w1) \<Rightarrow>
          if e = TimeoutException \<or> e = NoSuchElementException
          then (Inr False, log E (CouldNotFindContact contact) w1)
          else (Inl e, w1))"

text \<open>The body of the outer \<open>try\<close> (lines 111 to 191).\<close>

definition search_body :: "env \<Rightarrow> string \<Rightarrow> world \<Rightarrow> (exn + bool) \<times> world" where
  "search_body E contact w =
     (case find_box E search_xpath None w of
        (None, w1) \<Rightarrow> (Inr False, log E CouldNotFindSearchBox w1)
      | (Some search_box, w1) \<Rightarrow>
          bnd (clear E search_box) (\<lambda>u.
          bnd (send_keys E search_box (Text (search_text contact))) (\<lambda>u w2.
          find_and_click E contact
            (sleep E 2
              (log E (if is_phone contact
                      then SearchingForPhoneNumber (search_text contact)
                      else SearchingForContact contact) w2)))) w1)"

text \<open>\<open>search_contact\<close> (lines 105 to 194).\<close>

definition search_contact :: "env \<Rightarrow> string \<Rightarrow> world \<Rightarrow> (exn + bool) \<times> world" where
  "search_contact E contact w =
     (if cancel_requested w then (Inr False, w)
      else case search_body E contact w of
          (Inl e, w1) \<Rightarrow> (Inr False, log E (ErrorSearchingForContact contact e) w1)
        | (Inr b, w1) \<Rightarrow> (Inr b, w1))"

section \<open>send_message\<close>

definition message_box_xpaths :: "xpath list" where
  \<open>message_box_xpaths =
     [''//div[@contenteditable="true"][@data-tab="10"]'',
      ''//div[@contenteditable="true"][@spellcheck="true"]'',
      ''//div[@role="textbox"][@contenteditable="true"]'',
      ''//div[contains(@class, "selectable-text")][@contenteditable="true"]'']\<close>

definition popup_buttons :: xpath where
  \<open>popup_buttons = ''//div[@role="button" and (contains(., "OK") or contains(., "Yes") or contains(., "Continue"))]''\<close>

text \<open>The loop over the buttons of a dialog (lines 227 to 231).\<close>

fun click_button :: "env \<Rightarrow> element list \<Rightarrow> world \<Rightarrow> (exn + unit) \<times> world" where
  "click_button E [] w = (Inr (), w)"
| "click_button E (button # buttons) w =
     (case is_displayed E button w of
        (Inl e, w1) \<Rightarrow> (Inl e, w1)
      | (Inr shown, w1) \<Rightarrow>
          if shown then
            (case click E button w1 of
               (Inl e, w2) \<Rightarrow> (Inl e, w2)
             | (Inr u, w2) \<Rightarrow> (Inr (), sleep E 1 w2))
          else click_button E buttons w1)"

text \<open>The \<open>try\<close> around the dialog (lines 224 to 233): every exception is dropped.\<close>

definition dismiss_popup :: "env \<Rightarrow> world \<Rightarrow> world" where
  "dismiss_popup E w =
     (case find_elements E popup_buttons w of
        (Inl e, w1) \<Rightarrow> w1
      | (Inr buttons, w1) \<Rightarrow> snd (click_button E buttons w1))"

text \<open>The loop over the lines of the message (lines 237 to 240).\<close>

fun type_lines :: "env \<Rightarrow> element \<Rightarrow> string list \<Rightarrow> world \<Rightarrow> (exn + unit) \<times> world" where
  "type_lines E box [] w = (Inr (), w)"
| "type_lines E box (line # lines) w =
     (case send_keys E box (Text line) w of
        (Inl e, w1) \<Rightarrow> (Inl e, w1)
      | (Inr u, w1) \<Rightarrow>
          (case send_keys E box ShiftEnter w1 of
             (Inl e, w2) \<Rightarrow> (Inl e, w2)
           | (Inr u, w2) \<Rightarrow> type_lines E box lines w2))"

text \<open>The body of the \<open>try\<close> of \<open>send_message\<close> (lines 203 to 248).\<close>

definition send_body :: "env \<Rightarrow> string \<Rightarrow> world \<Rightarrow> (exn + bool) \<times> world" where
  "send_body E message w =
     (case find_box E message_box_xpaths None w of
        (None, w1) \<Rightarrow> (Inr False, log E CouldNotFindMessageBox w1)
      | (Some message_box, w1) \<Rightarrow>
          bnd (clear E message_box) (\<lambda>u.
          bnd (type_lines E message_box (split_on CHR 0x0A [] message)) (\<lambda>u.
          bnd (send_keys E message_box Backspace) (\<lambda>u.
          bnd (send_keys E message_box Enter) (\<lambda>u w2.
          (Inr True, sleep E 1 w2))))) (dismiss_popup E w1))"

text \<open>\<open>send_message\<close> (lines 196 to 251).\<close>

definition send_message :: "env \<Rightarrow> string \<Rightarrow> world \<Rightarrow> (exn + bool) \<times> world" where
  "send_message E message w =
     (if cancel_requested w then (Inr False, w)
      else case send_body E message w of
          (Inl e, w1) \<Rightarrow> (Inr False, log E (FailedToSendMessage e) w1)
        | (Inr b, w1) \<Rightarrow> (Inr b, w1))"

section \<open>send_bulk_messages\<close>

text \<open>\<open>contact['name']\<close>: the value, or a \<open>KeyError\<close>.\<close>

definition getitem :: "contact \<Rightarrow> string \<Rightarrow> exn + string" where
  "getitem contact key = (case map_of contact key of None \<Rightarrow> Inl KeyError | Some v \<Rightarrow> Inr v)"

text \<open>The wait between two contacts (lines 295 to 298), for \<open>range(delay)\<close> of the given
  length.\<close>

fun delay_loop :: "env \<Rightarrow> nat \<Rightarrow> world \<Rightarrow> world" where
  "delay_loop E 0 w = w"
| "delay_loop E (Suc n) w = (if cancel_requested w then w else delay_loop E n (sleep E 1 w))"

text \<open>Search and send for one contact with the tally (lines 273 to 292): the counts are
  \<open>success_count\<close> and \<open>fail_count\<close>.\<close>

definition send_one ::
  "env \<Rightarrow> string \<Rightarrow> contact \<Rightarrow> string \<Rightarrow> nat \<times> nat \<Rightarrow> world \<Rightarrow> (exn + nat \<times> nat) \<times> world" where
  "send_one E message contact contact_name counts =
     bnd (search_contact E contact_name) (\<lambda>found.
       if found then
         bnd (send_message E (personalize message contact_name contact)) (\<lambda>sent w.
           if sent then (Inr (fst counts + 1, snd counts), log E (MessageSentTo contact_name) w)
           else (Inr (fst counts, snd counts + 1), log E (FailedToSendMessageTo contact_name) w))
       else (\<lambda>w. (Inr (fst counts, snd counts + 1),
                   log E (CouldNotFindContactCross contact_name) w)))"

text \<open>The loop over the contacts (lines 264 to 298): \<open>len_contacts\<close> is
  \<open>len(contacts)\<close>, \<open>i\<close> the number \<open>enumerate\<close> gives the first contact left. The result is the two counts when the
  loop ends, by exhaustion or by \<open>break\<close>.\<close>

fun bulk_loop ::
  "env \<Rightarrow> string \<Rightarrow> int \<Rightarrow> nat \<Rightarrow> nat \<Rightarrow> contact list \<Rightarrow> nat \<times> nat \<Rightarrow> world
     \<Rightarrow> (exn + nat \<times> nat) \<times> world" where
  "bulk_loop E message delay len_contacts i [] counts w = (Inr counts, w)"
| "bulk_loop E message delay len_contacts i (contact # rest) counts w =
     (if cancel_requested w then (Inr counts, log E OperationCancelled w)
      else case getitem contact ''name'' of
          Inl e \<Rightarrow> (Inl e, w)
        | Inr contact_name \<Rightarrow>
            (case send_one E message contact contact_name counts
                    (log E (SendingTo i len_contacts contact_name) w) of
               (Inl e, w1) \<Rightarrow> (Inl e, w1)
             | (Inr counts1, w1) \<Rightarrow>
                 bulk_loop E message delay len_contacts (i + 1) rest counts1
                   (delay_loop E (nat delay) w1)))"

text \<open>\<open>send_bulk_messages\<close> (lines 253 to 301).\<close>

definition send_bulk_messages ::
  "env \<Rightarrow> contact list \<Rightarrow> string \<Rightarrow> int \<Rightarrow> world \<Rightarrow> (exn + unit) \<times> world" where
  "send_bulk_messages E contacts message delay w =
     (if contacts = [] then (Inr (), log E NoContactsFound w)
      else case bulk_loop E message delay (length contacts) 1 contacts (0, 0)
                  (log E (SendingMessagesTo (length contacts)) w) of
          (Inl e, w1) \<Rightarrow> (Inl e, w1)
        | (Inr (success_count, fail_count), w1) \<Rightarrow>
            (Inr (), (log E (Done success_count fail_count) w1)\<lparr>is_running := False\<rparr>))"

section \<open>load_contacts_from_csv and quit\<close>

text \<open>The values of a row of \<open>csv.DictReader\<close>: a cell of the file, \<open>None\<close> for a field the
  row is too short for, and under the key \<open>None\<close> the list of the cells a row has beyond
  the field names.\<close>

datatype cell = Cell string | Missing | Extra "string list"

type_synonym csv_row = "(string option \<times> cell) list"

text \<open>\<open>d[k] = v\<close> on a dictionary kept in insertion order.\<close>

fun setitem :: "('k \<times> 'v) list \<Rightarrow> 'k \<Rightarrow> 'v \<Rightarrow> ('k \<times> 'v) list" where
  "setitem [] k v = [(k, v)]"
| "setitem ((k1, v1) # d) k v = (if k1 = k then (k, v) # d else (k1, v1) # setitem d k v)"

text \<open>The dictionary \<open>DictReader.__next__\<close> builds from the field names and a row that is
  not empty.\<close>

definition dict_row :: "string list \<Rightarrow> string list \<Rightarrow> csv_row" where
  "dict_row fieldnames row =
     (let d = foldl (\<lambda>d (k, x). setitem d (Some k) (Cell x)) [] (zip fieldnames row);
          lf = length fieldnames;
          lr = length row
      in if lf < lr then setitem d None (Extra (drop lf row))
         else if lr < lf then foldl (\<lambda>d k. setitem d (Some k) Missing) d (drop lr fieldnames)
         else d)"

text \<open>The loop over the reader (lines 309 to 314) after the header: each item is what
  the next read of \<open>csv.reader\<close> gives, an exception or a row; \<open>DictReader\<close> skips the
  empty rows.\<close>

fun read_rows ::
  "env \<Rightarrow> string list \<Rightarrow> (exn + string list) list \<Rightarrow> csv_row list \<Rightarrow> world
     \<Rightarrow> csv_row list \<times> world" where
  "read_rows E fieldnames [] contacts w = (contacts, w)"
| "read_rows E fieldnames (Inl e # reads) contacts w =
     ([], log E (ErrorLoadingContactsFile e) w)"
| "read_rows E fieldnames (Inr row # reads) contacts w =
     (if row = [] then read_rows E fieldnames reads contacts w
      else if Some ''name'' \<in> set (map fst (dict_row fieldnames row))
        then read_rows E fieldnames reads (contacts @ [dict_row fieldnames row]) w
      else ([], log E CsvMustHaveNameColumn w))"

text \<open>\<open>load_contacts_from_csv\<close> (lines 303 to 319) on a file: \<open>Inl e\<close> when \<open>open\<close> raises
  \<open>e\<close>, otherwise what the reads of \<open>csv.reader\<close> give, the header first.\<close>

definition load_contacts_from_csv ::
  "env \<Rightarrow> exn + (exn + string list) list \<Rightarrow> world \<Rightarrow> csv_row list \<times> world" where
  "load_contacts_from_csv E file w =
     (case file of
        Inl e \<Rightarrow> ([], log E (ErrorLoadingContactsFile e) w)
      | Inr [] \<Rightarrow> ([], w)
      | Inr (Inl e # reads) \<Rightarrow> ([], log E (ErrorLoadingContactsFile e) w)
      | Inr (Inr fieldnames # reads) \<Rightarrow> read_rows E fieldnames reads [] w)"

text \<open>\<open>quit\<close> (lines 321 to 329).\<close>

definition quit :: "env \<Rightarrow> world \<Rightarrow> (exn + unit) \<times> world" where
  "quit E w =
     (Inr (),
      (case driver w of
         None \<Rightarrow> w
       | Some d \<Rightarrow>
           (case driver_quit E w of
              (Inl e, w1) \<Rightarrow> w1
            | (Inr u, w1) \<Rightarrow> log E BrowserClosed w1))\<lparr>is_running := False\<rparr>)"

section \<open>The specification's words\<close>

text \<open>The separators of the bulk entry as the code treats them: a comma, a semicolon,
  and any whitespace character, the newline and the space among them.\<close>

definition separator :: "char \<Rightarrow> bool" where
  "separator c = (c = CHR '','' \<or> c = CHR '';'' \<or> is_space c)"

text \<open>The separators the specification names: newline, comma, semicolon and space.\<close>

definition named_separator :: "char \<Rightarrow> bool" where
  "named_separator c = (c = CHR 0x0A \<or> c = CHR '','' \<or> c = CHR '';'' \<or> c = CHR '' '')"

section \<open>Events of a run\<close>

text \<open>The calls of the browser driver among the events.\<close>

fun is_call :: "event \<Rightarrow> bool" where
  "is_call (Log line) = False"
| "is_call (Sleep n) = False"
| "is_call ev = True"

fun is_get :: "event \<Rightarrow> bool" where
  "is_get (Get url) = True"
| "is_get ev = False"

fun is_log :: "event \<Rightarrow> bool" where
  "is_log (Log line) = True"
| "is_log ev = False"

text \<open>The exception with which the environment answers the call \<open>ev\<close> made at time \<open>t\<close>,
  if it answers with one.\<close>

fun raised :: "env \<Rightarrow> nat \<Rightarrow> event \<Rightarrow> exn option" where
  "raised E t (WaitUntil xp) = (case wait_until_r E t xp of Inl e \<Rightarrow> Some e | Inr el \<Rightarrow> None)"
| "raised E t (IsDisplayed el) = (case is_displayed_r E t el of Inl e \<Rightarrow> Some e | Inr b \<Rightarrow> None)"
| "raised E t (Clear el) = (case clear_r E t el of Inl e \<Rightarrow> Some e | Inr u \<Rightarrow> None)"
| "raised E t (SendKeys el k) = (case send_keys_r E t el k of Inl e \<Rightarrow> Some e | Inr u \<Rightarrow> None)"
| "raised E t (FindElements xp) =
     (case find_elements_r E t xp of Inl e \<Rightarrow> Some e | Inr els \<Rightarrow> None)"
| "raised E t (Click el) = (case click_r E t el of Inl e \<Rightarrow> Some e | Inr u \<Rightarrow> None)"
| "raised E t (Get url) = (case get_r E t url of Inl e \<Rightarrow> Some e | Inr u \<Rightarrow> None)"
| "raised E t DriverQuit = (case quit_r E t of Inl e \<Rightarrow> Some e | Inr u \<Rightarrow> None)"
| "raised E t (Log line) = None"
| "raised E t (Sleep n) = None"

text \<open>The paths that were waited for, and the paths that were looked up, in order.\<close>

fun waits :: "event list \<Rightarrow> xpath list" where
  "waits [] = []"
| "waits (WaitUntil xp # evs) = xp # waits evs"
| "waits (ev # evs) = waits evs"

fun lookups :: "event list \<Rightarrow> xpath list" where
  "lookups [] = []"
| "lookups (FindElements xp # evs) = xp # lookups evs"
| "lookups (ev # evs) = lookups evs"

text \<open>The line "[i/n] Sending to: ..." opens the work on a contact: the loop of
  \<open>send_bulk_messages\<close> logs it just before it calls \<open>search_contact\<close> for that contact
  (lines 269 to 273), and nothing else logs it.\<close>

fun is_sending_to :: "event \<Rightarrow> bool" where
  "is_sending_to (Log (SendingTo i n contact_name)) = True"
| "is_sending_to ev = False"

text \<open>The lines that end the work on a contact, each logged next to the increment of a
  count (lines 285 to 292): one for \<open>success_count\<close>, two for \<open>fail_count\<close>.\<close>

fun is_sent :: "event \<Rightarrow> bool" where
  "is_sent (Log (MessageSentTo contact_name)) = True"
| "is_sent ev = False"

fun is_failed :: "event \<Rightarrow> bool" where
  "is_failed (Log (FailedToSendMessageTo contact_name)) = True"
| "is_failed (Log (CouldNotFindContactCross contact_name)) = True"
| "is_failed ev = False"

definition is_tally :: "event \<Rightarrow> bool" where
  "is_tally ev \<longleftrightarrow> is_sent ev \<or> is_failed ev"

text \<open>An event that neither opens a contact nor ends the work on one.\<close>

definition inner :: "event \<Rightarrow> bool" where
  "inner ev \<longleftrightarrow> \<not> is_sending_to ev \<and> \<not> is_tally ev"

text \<open>Whether a contact is in flight after some events: it is from the line that opens
  it to the line that tallies it. The first argument says whether one was in flight
  before.\<close>

fun in_flight :: "bool \<Rightarrow> event list \<Rightarrow> bool" where
  "in_flight b [] = b"
| "in_flight b (ev # evs) =
     in_flight (if is_sending_to ev then True else if is_tally ev then False else b) evs"

text \<open>Every call of the browser among the events is made while a contact is in flight.\<close>

fun calls_in_flight :: "bool \<Rightarrow> event list \<Rightarrow> bool" where
  "calls_in_flight b [] = True"
| "calls_in_flight b (ev # evs) =
     ((is_call ev \<longrightarrow> b) \<and>
      calls_in_flight (if is_sending_to ev then True else if is_tally ev then False else b) evs)"

text \<open>The user asks for cancellation during one of the events \<open>a\<close>, ..., \<open>b - 1\<close>.\<close>

definition cancelled_in :: "env \<Rightarrow> nat \<Rightarrow> nat \<Rightarrow> bool" where
  "cancelled_in E a b \<longleftrightarrow> (\<exists>t. a \<le> t \<and> t < b \<and> cancel_at E t)"

text \<open>\<open>follows E w w1\<close>: the world \<open>w1\<close> comes after \<open>w\<close> by events none of which opens a
  contact or tallies one, and its flag is set when that of \<open>w\<close> was or when the user has
  asked for cancellation during these events.\<close>

definition follows :: "env \<Rightarrow> world \<Rightarrow> world \<Rightarrow> bool" where
  "follows E w w1 \<longleftrightarrow>
     (\<exists>evs. trace w1 = trace w @ evs \<and> list_all inner evs \<and>
        cancel_requested w1 =
          (cancel_requested w \<or> cancelled_in E (length (trace w)) (length (trace w1))))"

text \<open>An operation that neither opens a contact nor tallies one, whatever the world it
  starts from.\<close>

definition silent :: "env \<Rightarrow> (world \<Rightarrow> 'a \<times> world) \<Rightarrow> bool" where
  "silent E m \<longleftrightarrow> (\<forall>w. follows E w (snd (m w)))"

text \<open>\<open>stops E a tr\<close>: in the trace \<open>tr\<close> no contact is opened after an event, the one of
  time \<open>a\<close> or a later one, during which the user has asked for cancellation.\<close>

definition stops :: "env \<Rightarrow> nat \<Rightarrow> event list \<Rightarrow> bool" where
  "stops E a tr \<longleftrightarrow> (\<forall>t. a \<le> t \<and> cancel_at E t \<longrightarrow> filter is_sending_to (drop (Suc t) tr) = [])"

section \<open>Example environments\<close>

text \<open>A browser in which every wait finds a displayed element, no search result matches
  and nothing fails; the user never cancels.\<close>

definition quiet :: env where
  "quiet = \<lparr>wait_until_r = (\<lambda>t xp. Inr (Element 0)), is_displayed_r = (\<lambda>t el. Inr True),
     clear_r = (\<lambda>t el. Inr ()), send_keys_r = (\<lambda>t el k. Inr ()),
     find_elements_r = (\<lambda>t xp. Inr []), click_r = (\<lambda>t el. Inr ()),
     get_r = (\<lambda>t url. Inr ()), quit_r = (\<lambda>t. Inr ()), cancel_at = (\<lambda>t. False)\<rparr>"

text \<open>The sender after \<open>start\<close>: a browser handle, nothing done yet.\<close>

definition started :: world where
  "started = \<lparr>trace = [], cancel_requested = False, is_running = True, driver = Some 0\<rparr>"

text \<open>A browser whose first wait times out and whose every search has a result.\<close>

definition flaky :: env where
  "flaky = quiet\<lparr>wait_until_r := (\<lambda>t xp. if t = 0 then Inl TimeoutException else Inr (Element 0)),
     find_elements_r := (\<lambda>t xp. Inr [Element 1])\<rparr>"

text \<open>A browser whose first wait times out, whose first search fails, and in which
  clearing an input box fails.\<close>

definition broken :: env where
  "broken = quiet\<lparr>wait_until_r := (\<lambda>t xp. if t = 0 then Inl TimeoutException else Inr (Element 0)),
     find_elements_r := (\<lambda>t xp. if t = 0 then Inl OtherException else Inr []),
     clear_r := (\<lambda>t el. Inl OtherException)\<rparr>"

text \<open>A browser whose every search has a result, and a user who asks for cancellation
  during the event of time 12.\<close>

definition impatient :: env where
  "impatient = flaky\<lparr>cancel_at := (\<lambda>t. t = 12)\<rparr>"

section \<open>Properties\<close>

subsection \<open>An empty contact list\<close>

text \<open>Claim C8: \<open>send_bulk_messages\<close> on an empty contact list logs the line "No contacts
  found or invalid file format." and returns: that line is the only event, so there is no
  search, no send and no sleep, no count is reported, and the fields of the sender are as
  before (the cancellation flag can only have been set by the user meanwhile).\<close>

theorem send_bulk_empty:
  "send_bulk_messages E [] message delay w =
     (Inr (), w\<lparr>trace := trace w @ [Log NoContactsFound],
                cancel_requested := (cancel_requested w \<or> cancel_at E (length (trace w)))\<rparr>)"
  by (simp add: send_bulk_messages_def log_def emit_def)

theorem send_bulk_empty_witness:
  "send_bulk_messages quiet [] ''Hi {name}'' 3 started =
     (Inr (), \<lparr>trace = [Log NoContactsFound], cancel_requested = False, is_running = True,
               driver = Some 0\<rparr>)"
  using send_bulk_empty [of quiet "''Hi {name}''" 3 started]
  by (simp add: quiet_def started_def)

subsection \<open>Cancellation at the entry of an operation\<close>

text \<open>Claim C10: when \<open>cancel_requested\<close> is set as \<open>search_contact\<close> or \<open>send_message\<close> is
  entered, the operation returns \<open>False\<close> and the world is unchanged: no event at all, so
  no call of the browser.\<close>

theorem cancelled_at_entry:
  "cancel_requested w \<Longrightarrow>
     search_contact E contact w = (Inr False, w) \<and> send_message E message w = (Inr False, w)"
  by (simp add: search_contact_def send_message_def)

theorem cancelled_at_entry_witness:
  "cancel_requested (started\<lparr>cancel_requested := True\<rparr>) \<and>
   search_contact quiet ''Ana'' (started\<lparr>cancel_requested := True\<rparr>)
     = (Inr False, started\<lparr>cancel_requested := True\<rparr>) \<and>
   send_message quiet ''Hi'' (started\<lparr>cancel_requested := True\<rparr>)
     = (Inr False, started\<lparr>cancel_requested := True\<rparr>)"
  using cancelled_at_entry [of "started\<lparr>cancel_requested := True\<rparr>" quiet "''Ana''" "''Hi''"]
  by simp

subsection \<open>quit\<close>

text \<open>Claim C9, as stated, fails: \<open>quit\<close> never clears the handle, so a second call closes
  the browser a second time. With the quiet browser, one call issues one close and two
  calls issue two.\<close>

theorem quit_twice_counterexample:
  "filter (\<lambda>ev. ev = DriverQuit) (trace (snd (quit quiet started))) = [DriverQuit] \<and>
   filter (\<lambda>ev. ev = DriverQuit) (trace (snd (quit quiet (snd (quit quiet started)))))
     = [DriverQuit, DriverQuit]"
  by (simp add: quit_def driver_quit_def log_def emit_def quiet_def started_def)

text \<open>Claim C9, amended: \<open>quit\<close> never raises, whatever the driver answers; it leaves
  \<open>is_running\<close> false and the handle as it was, so a second call changes neither; and
  every call made while a handle is present issues the close of the browser once more,
  none when there is no handle.\<close>

theorem quit_closes_on_every_call:
  "fst (quit E w) = Inr () \<and>
   is_running (snd (quit E w)) = False \<and>
   driver (snd (quit E w)) = driver w \<and>
   length (filter (\<lambda>ev. ev = DriverQuit) (trace (snd (quit E w)))) =
     length (filter (\<lambda>ev. ev = DriverQuit) (trace w)) + (if driver w = None then 0 else 1)"
  by (simp add: quit_def driver_quit_def log_def emit_def split: option.splits sum.splits)

theorem quit_closes_on_every_call_witness:
  "fst (quit quiet started) = Inr () \<and>
   is_running (snd (quit quiet started)) = False \<and>
   driver (snd (quit quiet started)) = Some 0 \<and>
   length (filter (\<lambda>ev. ev = DriverQuit) (trace (snd (quit quiet started)))) = 1"
  using quit_closes_on_every_call [of quiet started]
  by (simp add: started_def)

subsection \<open>The loops over the selector strategies\<close>

text \<open>The events of the loop that looks for an input box: no log line and no navigation;
  the paths are waited for in order, and paths are left untried only after an element has
  answered that it is displayed.\<close>

lemma trace_emit: "trace (emit E ev w) = trace w @ [ev]"
  by (simp add: emit_def)

lemma find_box_events:
  "find_box E xps box w = (r, w1) \<Longrightarrow>
   \<exists>evs rest. trace w1 = trace w @ evs \<and> filter is_log evs = [] \<and> filter is_get evs = [] \<and>
     xps = waits evs @ rest \<and>
     (rest \<noteq> [] \<longrightarrow>
        (\<exists>pre el. evs = pre @ [IsDisplayed el] \<and>
           is_displayed_r E (length (trace w) + length pre) el = Inr True \<and> r = Some el))"
proof (induction xps arbitrary: box w)
  case Nil
  then show ?case
    by simp
next
  case (Cons xp xps)
  let ?wa = "emit E (WaitUntil xp) w"
  have a: "wait_until E xp w = (wait_until_r E (length (trace w)) xp, ?wa)"
    by (simp add: wait_until_def)
  have step: ?case
    if rec: "find_box E xps box1 w2 = (r, w1)" and tr: "trace w2 = trace w @ WaitUntil xp # mid"
      and mid: "mid = [] \<or> (\<exists>el. mid = [IsDisplayed el])" for box1 w2 mid
  proof -
    from Cons.IH [OF rec] obtain evs rest
      where t1: "trace w1 = trace w2 @ evs" and nolog: "filter is_log evs = []"
      and noget: "filter is_get evs = []" and paths: "xps = waits evs @ rest"
      and early: "rest \<noteq> [] \<longrightarrow>
        (\<exists>pre el. evs = pre @ [IsDisplayed el] \<and>
           is_displayed_r E (length (trace w2) + length pre) el = Inr True \<and> r = Some el)"
      by blast
    let ?evs = "WaitUntil xp # mid @ evs"
    have c1: "trace w1 = trace w @ ?evs"
      using t1 tr by simp
    have c2: "filter is_log ?evs = []"
      using nolog mid by (elim disjE exE) simp_all
    have c3: "filter is_get ?evs = []"
      using noget mid by (elim disjE exE) simp_all
    have c4: "xp # xps = waits ?evs @ rest"
      using paths mid by (elim disjE exE) simp_all
    have c5: "rest \<noteq> [] \<longrightarrow>
        (\<exists>pre el. ?evs = pre @ [IsDisplayed el] \<and>
           is_displayed_r E (length (trace w) + length pre) el = Inr True \<and> r = Some el)"
    proof
      assume "rest \<noteq> []"
      with early obtain pre el where e: "evs = pre @ [IsDisplayed el]"
        and shown: "is_displayed_r E (length (trace w2) + length pre) el = Inr True"
        and res: "r = Some el"
        by blast
      let ?pre = "WaitUntil xp # mid @ pre"
      have "?evs = ?pre @ [IsDisplayed el]"
        using e by simp
      moreover have "is_displayed_r E (length (trace w) + length ?pre) el = Inr True"
        using shown tr by (simp add: add.assoc)
      ultimately show "\<exists>pre el. ?evs = pre @ [IsDisplayed el] \<and>
           is_displayed_r E (length (trace w) + length pre) el = Inr True \<and> r = Some el"
        using res by blast
    qed
    show ?thesis
      by (intro exI [of _ ?evs] exI [of _ rest] conjI) (rule c1 c2 c3 c4 c5)+
  qed
  show ?case
  proof (cases "wait_until_r E (length (trace w)) xp")
    case (Inl e)
    with Cons.prems a have "find_box E xps box ?wa = (r, w1)"
      by simp
    then show ?thesis
      by (rule step [where mid = "[]"]) (simp_all add: trace_emit)
  next
    case (Inr el)
    let ?wb = "emit E (IsDisplayed el) ?wa"
    have b: "is_displayed E el ?wa = (is_displayed_r E (Suc (length (trace w))) el, ?wb)"
      by (simp add: is_displayed_def trace_emit)
    show ?thesis
    proof (cases "is_displayed_r E (Suc (length (trace w))) el = Inr True")
      case True
      with Cons.prems a b Inr have res: "r = Some el" "w1 = ?wb"
        by simp_all
      let ?evs = "[WaitUntil xp, IsDisplayed el]"
      have c1: "trace w1 = trace w @ ?evs"
        using res by (simp add: trace_emit)
      have c2: "filter is_log ?evs = []" and c3: "filter is_get ?evs = []"
        and c4: "xp # xps = waits ?evs @ xps"
        by simp_all
      have "?evs = [WaitUntil xp] @ [IsDisplayed el]"
        by simp
      moreover have "is_displayed_r E (length (trace w) + length [WaitUntil xp]) el = Inr True"
        using True by simp
      ultimately have "\<exists>pre el1. ?evs = pre @ [IsDisplayed el1] \<and>
           is_displayed_r E (length (trace w) + length pre) el1 = Inr True \<and> r = Some el1"
        using res(1) by blast
      then have c5: "xps \<noteq> [] \<longrightarrow>
        (\<exists>pre el1. ?evs = pre @ [IsDisplayed el1] \<and>
           is_displayed_r E (length (trace w) + length pre) el1 = Inr True \<and> r = Some el1)"
        by (rule impI)
      show ?thesis
        by (intro exI [of _ ?evs] exI [of _ xps] conjI) (rule c1 c2 c3 c4 c5)+
    next
      case False
      with Cons.prems a b Inr have "find_box E xps (Some el) ?wb = (r, w1)"
        by (cases "is_displayed_r E (Suc (length (trace w))) el") auto
      then show ?thesis
        by (rule step [where mid = "[IsDisplayed el]"]) (simp_all add: trace_emit)
    qed
  qed
qed

text \<open>The events of the loop over the patterns of the search results: no log line and no
  navigation; the patterns are looked up in order; the loop ends early only after a click
  that returned, or when cancellation is requested.\<close>

lemma click_first_events:
  "click_first E xps w = (r, w1) \<Longrightarrow>
   \<exists>evs rest. trace w1 = trace w @ evs \<and> filter is_log evs = [] \<and> filter is_get evs = [] \<and>
     xps = lookups evs @ rest \<and>
     (case r of
        None \<Rightarrow> rest = []
      | Some b \<Rightarrow>
          if b then (\<exists>pre el. evs = pre @ [Click el, Sleep 1] \<and>
                       click_r E (length (trace w) + length pre) el = Inr ())
          else cancel_requested w1 \<and> rest \<noteq> [])"
proof (induction xps arbitrary: w)
  case Nil
  then show ?case
    by simp
next
  case (Cons xp xps)
  show ?case
  proof (cases "cancel_requested w")
    case True
    with Cons.prems have "r = Some False" "w1 = w"
      by simp_all
    with True show ?thesis
      by (intro exI [of _ "[]"] exI [of _ "xp # xps"]) simp
  next
    case idle: False
    let ?wa = "emit E (FindElements xp) w"
    have a: "find_elements E xp w = (find_elements_r E (length (trace w)) xp, ?wa)"
      by (simp add: find_elements_def)
    have step: ?thesis
      if rec: "click_first E xps w2 = (r, w1)" and tr: "trace w2 = trace w @ FindElements xp # mid"
        and mid: "mid = [] \<or> (\<exists>el. mid = [Click el])" for w2 mid
    proof -
      from Cons.IH [OF rec] obtain evs rest
        where t1: "trace w1 = trace w2 @ evs" and nolog: "filter is_log evs = []"
        and noget: "filter is_get evs = []" and paths: "xps = lookups evs @ rest"
        and res: "case r of
          None \<Rightarrow> rest = []
        | Some b \<Rightarrow>
            if b then (\<exists>pre el. evs = pre @ [Click el, Sleep 1] \<and>
                         click_r E (length (trace w2) + length pre) el = Inr ())
            else cancel_requested w1 \<and> rest \<noteq> []"
        by blast
      let ?evs = "FindElements xp # mid @ evs"
      have c1: "trace w1 = trace w @ ?evs"
        using t1 tr by simp
      have c2: "filter is_log ?evs = []"
        using nolog mid by (elim disjE exE) simp_all
      have c3: "filter is_get ?evs = []"
        using noget mid by (elim disjE exE) simp_all
      have c4: "xp # xps = lookups ?evs @ rest"
        using paths mid by (elim disjE exE) simp_all
      have c5: "case r of
          None \<Rightarrow> rest = []
        | Some b \<Rightarrow>
            if b then (\<exists>pre el. ?evs = pre @ [Click el, Sleep 1] \<and>
                         click_r E (length (trace w) + length pre) el = Inr ())
            else cancel_requested w1 \<and> rest \<noteq> []"
      proof (cases r)
        case None
        with res show ?thesis
          by simp
      next
        case (Some b)
        show ?thesis
        proof (cases b)
          case False
          with res Some show ?thesis
            by simp
        next
          case True
          with res Some obtain pre el where e: "evs = pre @ [Click el, Sleep 1]"
            and ok: "click_r E (length (trace w2) + length pre) el = Inr ()"
            by auto
          let ?pre = "FindElements xp # mid @ pre"
          have "?evs = ?pre @ [Click el, Sleep 1]"
            using e by simp
          moreover have "click_r E (length (trace w) + length ?pre) el = Inr ()"
            using ok tr by (simp add: add.assoc)
          ultimately have "\<exists>pre el. ?evs = pre @ [Click el, Sleep 1] \<and>
                         click_r E (length (trace w) + length pre) el = Inr ()"
            by blast
          with Some True show ?thesis
            by simp
        qed
      qed
      show ?thesis
        by (intro exI [of _ ?evs] exI [of _ rest] conjI) (rule c1 c2 c3 c4 c5)+
    qed
    show ?thesis
    proof (cases "find_elements_r E (length (trace w)) xp")
      case (Inl e)
      with Cons.prems idle a have "click_first E xps ?wa = (r, w1)"
        by simp
      then show ?thesis
        by (rule step [where mid = "[]"]) (simp_all add: trace_emit)
    next
      case (Inr els)
      show ?thesis
      proof (cases els)
        case Nil
        with Cons.prems idle a Inr have "click_first E xps ?wa = (r, w1)"
          by simp
        then show ?thesis
          by (rule step [where mid = "[]"]) (simp_all add: trace_emit)
      next
        case (Cons el rest_els)
        let ?wb = "emit E (Click el) ?wa"
        have b: "click E el ?wa = (click_r E (Suc (length (trace w))) el, ?wb)"
          by (simp add: click_def trace_emit)
        show ?thesis
        proof (cases "click_r E (Suc (length (trace w))) el")
          case (Inl e)
          with Cons.prems idle a b Inr Cons have "click_first E xps ?wb = (r, w1)"
            by simp
          then show ?thesis
            by (rule step [where mid = "[Click el]"]) (simp_all add: trace_emit)
        next
          case ok: (Inr u)
          with Cons.prems idle a b Inr Cons have res: "r = Some True" "w1 = sleep E 1 ?wb"
            by simp_all
          let ?evs = "[FindElements xp, Click el, Sleep 1]"
          have c1: "trace w1 = trace w @ ?evs"
            using res by (simp add: sleep_def trace_emit)
          have c2: "filter is_log ?evs = []" and c3: "filter is_get ?evs = []"
            and c4: "xp # xps = lookups ?evs @ xps"
            by simp_all
          have "?evs = [FindElements xp] @ [Click el, Sleep 1]"
            by simp
          moreover have "click_r E (length (trace w) + length [FindElements xp]) el = Inr ()"
            using ok by simp
          ultimately have "\<exists>pre el1. ?evs = pre @ [Click el1, Sleep 1] \<and>
                         click_r E (length (trace w) + length pre) el1 = Inr ()"
            by blast
          with res(1) have c5: "case r of
              None \<Rightarrow> xps = []
            | Some b \<Rightarrow>
                if b then (\<exists>pre el1. ?evs = pre @ [Click el1, Sleep 1] \<and>
                         click_r E (length (trace w) + length pre) el1 = Inr ())
                else cancel_requested w1 \<and> xps \<noteq> []"
            by simp
          show ?thesis
            by (intro exI [of _ ?evs] exI [of _ xps] conjI) (rule c1 c2 c3 c4 c5)+
        qed
      qed
    qed
  qed
qed

text \<open>An exception that leaves the direct URL, the inner \<open>try\<close> or the body of the outer \<open>try\<close> of
  \<open>search_contact\<close> is the answer to the last call that was made.\<close>

lemma find_box_extends: "\<exists>evs. trace (snd (find_box E xps box w)) = trace w @ evs"
  using find_box_events [of E xps box w "fst (find_box E xps box w)" "snd (find_box E xps box w)"]
  by auto

lemma click_first_extends: "\<exists>evs. trace (snd (click_first E xps w)) = trace w @ evs"
  using click_first_events [of E xps w "fst (click_first E xps w)" "snd (click_first E xps w)"]
  by auto

lemma direct_url_raises:
  assumes "direct_url E contact w = (Inl e, w2)"
  shows "\<exists>pre ev. trace w2 = trace w @ pre @ [ev] \<and>
     raised E (length (trace w) + length pre) ev = Some e \<and>
     (ev = Get (deep_link (py_replace contact ''+'' '''')) \<or> ev = WaitUntil message_input)"
proof -
  let ?url = "deep_link (py_replace contact ''+'' '''')"
  let ?wa = "emit E (Get ?url) w"
  from assms have guard: "is_phone contact \<and> 7 < length contact"
    by (auto simp add: direct_url_def split: if_splits)
  show ?thesis
  proof (cases "get_r E (length (trace w)) ?url")
    case (Inl e1)
    with assms guard have "e1 = e" "w2 = ?wa"
      by (simp_all add: direct_url_def bnd_def get_def)
    with Inl have "trace w2 = trace w @ [] @ [Get ?url]"
      and "raised E (length (trace w) + length ([]::event list)) (Get ?url) = Some e"
      by (simp_all add: trace_emit)
    then show ?thesis
      by blast
  next
    case (Inr u)
    let ?wb = "emit E (WaitUntil message_input) ?wa"
    from assms guard Inr
    have "wait_until_r E (Suc (length (trace w))) message_input = Inl e \<and> w2 = ?wb"
      by (cases "wait_until_r E (Suc (length (trace w))) message_input")
        (simp_all add: direct_url_def bnd_def get_def wait_until_def trace_emit)
    then have "trace w2 = trace w @ [Get ?url] @ [WaitUntil message_input]"
      and "raised E (length (trace w) + length [Get ?url]) (WaitUntil message_input) = Some e"
      by (simp_all add: trace_emit)
    then show ?thesis
      by blast
  qed
qed

lemma find_and_click_raises:
  assumes "find_and_click E contact w = (Inl e, w2)"
  shows "\<exists>pre ev. trace w2 = trace w @ pre @ [ev] \<and>
     raised E (length (trace w) + length pre) ev = Some e \<and>
     (ev = Get (deep_link (py_replace contact ''+'' '''')) \<or> ev = WaitUntil message_input) \<and>
     e \<noteq> TimeoutException \<and> e \<noteq> NoSuchElementException"
proof -
  obtain r1 w1 where a: "click_first E (xpath_patterns contact) w = (r1, w1)"
    by (cases "click_first E (xpath_patterns contact) w")
  from click_first_extends [of E "xpath_patterns contact" w] a
  obtain evs where t1: "trace w1 = trace w @ evs"
    by auto
  from assms a have b: "direct_url E contact w1 = (Inl e, w2)"
    and other: "e \<noteq> TimeoutException \<and> e \<noteq> NoSuchElementException"
    by (auto simp add: find_and_click_def open_chat_def
        split: option.splits sum.splits prod.splits if_splits)
  from direct_url_raises [OF b] obtain pre ev
    where t2: "trace w2 = trace w1 @ pre @ [ev]"
    and r: "raised E (length (trace w1) + length pre) ev = Some e"
    and ev: "ev = Get (deep_link (py_replace contact ''+'' '''')) \<or> ev = WaitUntil message_input"
    by blast
  have "trace w2 = trace w @ (evs @ pre) @ [ev]"
    using t1 t2 by simp
  moreover have "raised E (length (trace w) + length (evs @ pre)) ev = Some e"
    using r t1 by (simp add: add.assoc)
  ultimately show ?thesis
    using ev other by blast
qed

lemma search_body_raises:
  assumes "search_body E contact w = (Inl e, w2)"
  shows "\<exists>pre ev. trace w2 = trace w @ pre @ [ev] \<and>
     raised E (length (trace w) + length pre) ev = Some e \<and>
     ((\<exists>search_box. ev = Clear search_box) \<or>
      (\<exists>search_box. ev = SendKeys search_box (Text (search_text contact))) \<or>
      (ev = Get (deep_link (py_replace contact ''+'' '''')) \<or> ev = WaitUntil message_input) \<and>
        e \<noteq> TimeoutException \<and> e \<noteq> NoSuchElementException)"
proof -
  obtain bx w1 where a: "find_box E search_xpath None w = (bx, w1)"
    by (cases "find_box E search_xpath None w")
  from find_box_extends [of E search_xpath None w] a
  obtain evs where t1: "trace w1 = trace w @ evs"
    by auto
  from assms a obtain search_box where bx: "bx = Some search_box"
    by (cases bx) (auto simp add: search_body_def)
  let ?wb = "emit E (Clear search_box) w1"
  let ?key = "Text (search_text contact)"
  let ?wc = "emit E (SendKeys search_box ?key) ?wb"
  let ?line = "if is_phone contact then SearchingForPhoneNumber (search_text contact)
               else SearchingForContact contact"
  let ?wd = "sleep E 2 (log E ?line ?wc)"
  show ?thesis
  proof (cases "clear_r E (length (trace w1)) search_box")
    case (Inl e1)
    with assms a bx have "e1 = e" "w2 = ?wb"
      by (simp_all add: search_body_def bnd_def clear_def)
    with Inl t1 have "trace w2 = trace w @ evs @ [Clear search_box]"
      and "raised E (length (trace w) + length evs) (Clear search_box) = Some e"
      by (simp_all add: trace_emit)
    then show ?thesis
      by blast
  next
    case cleared: (Inr u)
    show ?thesis
    proof (cases "send_keys_r E (Suc (length (trace w1))) search_box ?key")
      case (Inl e1)
      with assms a bx cleared have "e1 = e" "w2 = ?wc"
        by (simp_all add: search_body_def bnd_def clear_def send_keys_def trace_emit)
      with Inl t1 have "trace w2 = trace w @ (evs @ [Clear search_box]) @ [SendKeys search_box ?key]"
        and "raised E (length (trace w) + length (evs @ [Clear search_box]))
               (SendKeys search_box ?key) = Some e"
        by (simp_all add: trace_emit)
      then show ?thesis
        by blast
    next
      case typed: (Inr u1)
      with assms a bx cleared have b: "find_and_click E contact ?wd = (Inl e, w2)"
        by (simp add: search_body_def bnd_def clear_def send_keys_def trace_emit)
      let ?mid = "evs @ [Clear search_box, SendKeys search_box ?key, Log ?line, Sleep 2]"
      have td: "trace ?wd = trace w @ ?mid"
        using t1 by (simp add: sleep_def log_def trace_emit)
      from find_and_click_raises [OF b] obtain pre ev
        where t2: "trace w2 = trace ?wd @ pre @ [ev]"
        and r: "raised E (length (trace ?wd) + length pre) ev = Some e"
        and ev: "ev = Get (deep_link (py_replace contact ''+'' '''')) \<or> ev = WaitUntil message_input"
        and other: "e \<noteq> TimeoutException \<and> e \<noteq> NoSuchElementException"
        by blast
      have "trace w2 = trace w @ (?mid @ pre) @ [ev]"
        using t2 td by simp
      moreover have "raised E (length (trace w) + length (?mid @ pre)) ev = Some e"
        using r td by (simp add: add.assoc)
      ultimately show ?thesis
        using ev other by blast
    qed
  qed
qed

subsection \<open>search_contact never raises\<close>

text \<open>Claim C4, as stated, fails: an exception of a selector strategy is dropped without
  a log line and the next strategy is tried, so the call can still succeed. With the
  flaky browser the first wait raises \<open>TimeoutException\<close>, \<open>search_contact\<close> returns \<open>True\<close>,
  and its only log line is the one that announces the search.\<close>

theorem swallowed_counterexample:
  "wait_until_r flaky 0 (hd search_xpath) = Inl TimeoutException \<and>
   fst (search_contact flaky ''Bob'' started) = Inr True \<and>
   filter is_log (trace (snd (search_contact flaky ''Bob'' started)))
     = [Log (SearchingForContact ''Bob'')]"
  by (simp add: search_contact_def search_body_def search_xpath_def wait_until_def is_displayed_def
      clear_def send_keys_def bnd_def find_and_click_def open_chat_def xpath_patterns_def
      find_elements_def click_def log_def sleep_def emit_def flaky_def quiet_def started_def
      search_text_def is_phone_def isdigit_def is_digit_char_def)

text \<open>Claim C4, amended: for every identifier and every behaviour of the browser
  \<open>search_contact\<close> returns a boolean and no exception leaves it. An exception that leaves
  the body of its \<open>try\<close> is logged and turned into \<open>False\<close>; it is the answer to the last call
  that was made, and that call is the clearing of the search box, the typing of the search
  text or, for an exception that is neither a timeout nor a missing element, the
  navigation to the direct URL or the wait for the message input. Conversely, once the
  search box is found, the exception of its clearing and that of the typing of the search
  text always leave the body: \<open>search_contact\<close> logs them and returns \<open>False\<close>. The two loops over the
  selector strategies log nothing and never end on an exception: the loop for the search
  box waits for the paths in order and leaves paths untried only after an element has
  answered that it is displayed; the loop over the patterns of the results looks them up
  in order, ends with \<open>True\<close> only after a click that returned and with \<open>False\<close> only when
  cancellation is requested, and otherwise has looked up every pattern.\<close>

theorem search_contact_total:
  "(\<exists>b w1. search_contact E contact w = (Inr b, w1)) \<and>
   (\<not> cancel_requested w \<longrightarrow> search_body E contact w = (Inl e, w2) \<longrightarrow>
      search_contact E contact w = (Inr False, log E (ErrorSearchingForContact contact e) w2) \<and>
      (\<exists>pre ev. trace w2 = trace w @ pre @ [ev] \<and>
         raised E (length (trace w) + length pre) ev = Some e \<and>
         ((\<exists>search_box. ev = Clear search_box) \<or>
          (\<exists>search_box. ev = SendKeys search_box (Text (search_text contact))) \<or>
          (ev = Get (deep_link (py_replace contact ''+'' '''')) \<or> ev = WaitUntil message_input) \<and>
            e \<noteq> TimeoutException \<and> e \<noteq> NoSuchElementException))) \<and>
   (\<not> cancel_requested w \<longrightarrow> find_box E search_xpath None w = (Some search_box, ws) \<longrightarrow>
      (clear_r E (length (trace ws)) search_box = Inl e1 \<longrightarrow>
         search_contact E contact w =
           (Inr False,
            log E (ErrorSearchingForContact contact e1) (emit E (Clear search_box) ws))) \<and>
      (clear_r E (length (trace ws)) search_box = Inr () \<longrightarrow>
       send_keys_r E (Suc (length (trace ws))) search_box (Text (search_text contact)) = Inl e1 \<longrightarrow>
         search_contact E contact w =
           (Inr False,
            log E (ErrorSearchingForContact contact e1)
              (emit E (SendKeys search_box (Text (search_text contact)))
                 (emit E (Clear search_box) ws))))) \<and>
   (find_box E xps box wa = (found, wb) \<longrightarrow>
      (\<exists>evs rest. trace wb = trace wa @ evs \<and> filter is_log evs = [] \<and>
         xps = waits evs @ rest \<and>
         (rest \<noteq> [] \<longrightarrow>
            (\<exists>pre el. evs = pre @ [IsDisplayed el] \<and>
               is_displayed_r E (length (trace wa) + length pre) el = Inr True \<and>
               found = Some el)))) \<and>
   (click_first E patterns wc = (clicked, wd) \<longrightarrow>
      (\<exists>evs rest. trace wd = trace wc @ evs \<and> filter is_log evs = [] \<and>
         patterns = lookups evs @ rest \<and>
         (case clicked of
            None \<Rightarrow> rest = []
          | Some b \<Rightarrow>
              if b then (\<exists>pre el. evs = pre @ [Click el, Sleep 1] \<and>
                           click_r E (length (trace wc) + length pre) el = Inr ())
              else cancel_requested wd \<and> rest \<noteq> [])))"
proof (intro conjI impI)
  show "\<exists>b w1. search_contact E contact w = (Inr b, w1)"
    by (auto simp add: search_contact_def split: prod.splits sum.splits)
next
  assume "\<not> cancel_requested w" and "search_body E contact w = (Inl e, w2)"
  then show "search_contact E contact w
      = (Inr False, log E (ErrorSearchingForContact contact e) w2)"
    by (simp add: search_contact_def)
next
  assume "search_body E contact w = (Inl e, w2)"
  then show "\<exists>pre ev. trace w2 = trace w @ pre @ [ev] \<and>
         raised E (length (trace w) + length pre) ev = Some e \<and>
         ((\<exists>search_box. ev = Clear search_box) \<or>
          (\<exists>search_box. ev = SendKeys search_box (Text (search_text contact))) \<or>
          (ev = Get (deep_link (py_replace contact ''+'' '''')) \<or> ev = WaitUntil message_input) \<and>
            e \<noteq> TimeoutException \<and> e \<noteq> NoSuchElementException)"
    by (rule search_body_raises)
next
  assume "\<not> cancel_requested w" and "find_box E search_xpath None w = (Some search_box, ws)"
    and "clear_r E (length (trace ws)) search_box = Inl e1"
  then show "search_contact E contact w =
           (Inr False,
            log E (ErrorSearchingForContact contact e1) (emit E (Clear search_box) ws))"
    by (simp add: search_contact_def search_body_def bnd_def clear_def)
next
  assume "\<not> cancel_requested w" and "find_box E search_xpath None w = (Some search_box, ws)"
    and "clear_r E (length (trace ws)) search_box = Inr ()"
    and "send_keys_r E (Suc (length (trace ws))) search_box (Text (search_text contact)) = Inl e1"
  then show "search_contact E contact w =
           (Inr False,
            log E (ErrorSearchingForContact contact e1)
              (emit E (SendKeys search_box (Text (search_text contact)))
                 (emit E (Clear search_box) ws)))"
    by (simp add: search_contact_def search_body_def bnd_def clear_def send_keys_def trace_emit)
next
  assume "find_box E xps box wa = (found, wb)"
  from find_box_events [OF this]
  show "\<exists>evs rest. trace wb = trace wa @ evs \<and> filter is_log evs = [] \<and>
         xps = waits evs @ rest \<and>
         (rest \<noteq> [] \<longrightarrow>
            (\<exists>pre el. evs = pre @ [IsDisplayed el] \<and>
               is_displayed_r E (length (trace wa) + length pre) el = Inr True \<and>
               found = Some el))"
    by blast
next
  assume "click_first E patterns wc = (clicked, wd)"
  from click_first_events [OF this]
  show "\<exists>evs rest. trace wd = trace wc @ evs \<and> filter is_log evs = [] \<and>
         patterns = lookups evs @ rest \<and>
         (case clicked of
            None \<Rightarrow> rest = []
          | Some b \<Rightarrow>
              if b then (\<exists>pre el. evs = pre @ [Click el, Sleep 1] \<and>
                           click_r E (length (trace wc) + length pre) el = Inr ())
              else cancel_requested wd \<and> rest \<noteq> [])"
    by blast
qed

text \<open>In the broken browser the first wait times out and the second path gives the search
  box; the first lookup of a search result fails and the other patterns are still looked
  up; and the exception of \<open>clear\<close> is logged and turned into \<open>False\<close>.\<close>

theorem search_contact_total_witness:
  "\<not> cancel_requested started \<and>
   raised broken 0 (WaitUntil (search_xpath ! 0)) = Some TimeoutException \<and>
   find_box broken search_xpath None started =
     (Some (Element 0),
      started\<lparr>trace := [WaitUntil (search_xpath ! 0), WaitUntil (search_xpath ! 1),
                         IsDisplayed (Element 0)]\<rparr>) \<and>
   raised broken 0 (FindElements (xpath_patterns ''Bob'' ! 0)) = Some OtherException \<and>
   click_first broken (xpath_patterns ''Bob'') started =
     (None, started\<lparr>trace := map FindElements (xpath_patterns ''Bob'')\<rparr>) \<and>
   raised broken 3 (Clear (Element 0)) = Some OtherException \<and>
   search_body broken ''Bob'' started =
     (Inl OtherException,
      started\<lparr>trace := [WaitUntil (search_xpath ! 0), WaitUntil (search_xpath ! 1),
                         IsDisplayed (Element 0), Clear (Element 0)]\<rparr>) \<and>
   search_contact broken ''Bob'' started =
     (Inr False,
      log broken (ErrorSearchingForContact ''Bob'' OtherException)
        (started\<lparr>trace := [WaitUntil (search_xpath ! 0), WaitUntil (search_xpath ! 1),
                           IsDisplayed (Element 0), Clear (Element 0)]\<rparr>))"
proof -
  let ?w2 = "started\<lparr>trace := [WaitUntil (search_xpath ! 0), WaitUntil (search_xpath ! 1),
                         IsDisplayed (Element 0), Clear (Element 0)]\<rparr>"
  let ?wb = "started\<lparr>trace := [WaitUntil (search_xpath ! 0), WaitUntil (search_xpath ! 1),
                         IsDisplayed (Element 0)]\<rparr>"
  let ?wd = "started\<lparr>trace := map FindElements (xpath_patterns ''Bob'')\<rparr>"
  have idle: "\<not> cancel_requested started"
    by (simp add: started_def)
  have calls: "raised broken 0 (WaitUntil (search_xpath ! 0)) = Some TimeoutException"
    "raised broken 0 (FindElements (xpath_patterns ''Bob'' ! 0)) = Some OtherException"
    "raised broken 3 (Clear (Element 0)) = Some OtherException"
    by (simp_all add: broken_def quiet_def)
  have box: "find_box broken search_xpath None started = (Some (Element 0), ?wb)"
    by (simp add: search_xpath_def wait_until_def is_displayed_def emit_def broken_def quiet_def
        started_def)
  have results: "click_first broken (xpath_patterns ''Bob'') started = (None, ?wd)"
    by (simp add: xpath_patterns_def find_elements_def emit_def broken_def quiet_def started_def)
  have body: "search_body broken ''Bob'' started = (Inl OtherException, ?w2)"
    by (simp add: search_body_def search_xpath_def wait_until_def is_displayed_def clear_def
        bnd_def emit_def broken_def quiet_def started_def)
  from search_contact_total [of broken "''Bob''" started OtherException ?w2 "Element 0" ?wb
      OtherException search_xpath None started "Some (Element 0)" ?wb "xpath_patterns ''Bob''"
      started None ?wd] idle body
  have "search_contact broken ''Bob'' started
      = (Inr False, log broken (ErrorSearchingForContact ''Bob'' OtherException) ?w2)"
    by blast
  with idle calls box results body show ?thesis
    by simp
qed

subsection \<open>The direct URL\<close>

text \<open>Claim C3, as stated, fails: the direct URL is tried only for a phone number of
  more than seven characters. For the phone number 12345 in the quiet browser, where no
  search result matches, \<open>search_contact\<close> navigates nowhere and returns \<open>False\<close>.\<close>

theorem short_phone_counterexample:
  "is_phone ''12345'' \<and>
   fst (search_contact quiet ''12345'' started) = Inr False \<and>
   filter is_get (trace (snd (search_contact quiet ''12345'' started))) = []"
  by (simp add: search_contact_def search_body_def search_xpath_def wait_until_def is_displayed_def
      clear_def send_keys_def bnd_def find_and_click_def open_chat_def direct_url_def
      xpath_patterns_def find_elements_def click_def log_def sleep_def emit_def quiet_def
      started_def search_text_def is_phone_def isdigit_def is_digit_char_def)

text \<open>Claim C3, amended: let \<open>search_contact\<close> be called with no cancellation requested,
  find a search box, clear it and type the search text, and let every selector strategy
  fail (the loop over the patterns ends without a click and without cancellation). Up to
  there nothing has been navigated to. For a phone number of more than seven characters
  the next call of the browser is the navigation to the direct URL of the number without
  its plus signs, which is all digits; \<open>search_contact\<close> returns \<open>True\<close> exactly when that
  navigation and the wait for the message input that follows it both return, and then
  its events after the loop are the navigation, the wait and a sleep of two seconds;
  otherwise it returns \<open>False\<close>, and its last line is "Could not find contact" when the
  exception of the navigation or of the wait is a timeout or a missing element, and the
  error line otherwise. For every other identifier, a phone number of seven characters
  or fewer among them, there is no fallback: \<open>search_contact\<close> logs "Could not find
  contact" right after the loop and returns \<open>False\<close>.\<close>

theorem direct_url_fallback:
  assumes idle: "\<not> cancel_requested w"
    and box: "find_box E search_xpath None w = (Some search_box, w1)"
    and cleared: "clear E search_box w1 = (Inr (), w2)"
    and typed: "send_keys E search_box (Text (search_text contact)) w2 = (Inr (), w3)"
    and failed: "click_first E (xpath_patterns contact)
        (sleep E 2 (log E (if is_phone contact then SearchingForPhoneNumber (search_text contact)
                           else SearchingForContact contact) w3)) = (None, w4)"
  shows "filter is_get (drop (length (trace w)) (trace w4)) = [] \<and>
    (if is_phone contact \<and> 7 < length contact then
       isdigit (py_replace contact ''+'' '''') \<and>
       take (Suc (length (trace w4))) (trace (snd (search_contact E contact w)))
         = trace w4 @ [Get (deep_link (py_replace contact ''+'' ''''))] \<and>
       (fst (search_contact E contact w) = Inr True \<longleftrightarrow>
          get_r E (length (trace w4)) (deep_link (py_replace contact ''+'' '''')) = Inr () \<and>
          (\<exists>el. wait_until_r E (Suc (length (trace w4))) message_input = Inr el)) \<and>
       (fst (search_contact E contact w) = Inr True \<longrightarrow>
          trace (snd (search_contact E contact w))
            = trace w4 @ [Get (deep_link (py_replace contact ''+'' '''')),
                          WaitUntil message_input, Sleep 2]) \<and>
       (fst (search_contact E contact w) \<noteq> Inr True \<longrightarrow>
          fst (search_contact E contact w) = Inr False \<and>
          (\<exists>e. (get_r E (length (trace w4)) (deep_link (py_replace contact ''+'' '''')) = Inl e \<or>
                wait_until_r E (Suc (length (trace w4))) message_input = Inl e) \<and>
               last (trace (snd (search_contact E contact w))) =
                 Log (if e = TimeoutException \<or> e = NoSuchElementException
                      then CouldNotFindContact contact
                      else ErrorSearchingForContact contact e)))
     else search_contact E contact w = (Inr False, log E (CouldNotFindContact contact) w4))"
proof -
  let ?line = "if is_phone contact then SearchingForPhoneNumber (search_text contact)
               else SearchingForContact contact"
  let ?wd = "sleep E 2 (log E ?line w3)"
  let ?url = "deep_link (py_replace contact ''+'' '''')"
  from find_box_events [OF box] obtain evs0
    where t1: "trace w1 = trace w @ evs0" and g0: "filter is_get evs0 = []"
    by blast
  from cleared have t2: "trace w2 = trace w1 @ [Clear search_box]"
    by (auto simp add: clear_def trace_emit)
  from typed have t3: "trace w3 = trace w2 @ [SendKeys search_box (Text (search_text contact))]"
    by (auto simp add: send_keys_def trace_emit)
  have td: "trace ?wd = trace w3 @ [Log ?line, Sleep 2]"
    by (simp add: sleep_def log_def trace_emit)
  from click_first_events [OF failed] obtain evs1
    where t4: "trace w4 = trace ?wd @ evs1" and g1: "filter is_get evs1 = []"
    by blast
  have before: "filter is_get (drop (length (trace w)) (trace w4)) = []"
    using t1 t2 t3 td t4 g0 g1 by simp
  have body: "search_body E contact w = find_and_click E contact ?wd"
    using box cleared typed by (simp add: search_body_def bnd_def)
  have chat: "open_chat E contact ?wd = direct_url E contact w4"
    using failed by (simp add: open_chat_def)
  show ?thesis
  proof (cases "is_phone contact \<and> 7 < length contact")
    case False
    then have "direct_url E contact w4 = (Inr None, w4)"
      by (auto simp add: direct_url_def)
    with chat have "find_and_click E contact ?wd
        = (Inr False, log E (CouldNotFindContact contact) w4)"
      by (simp add: find_and_click_def)
    with idle body
    have "search_contact E contact w = (Inr False, log E (CouldNotFindContact contact) w4)"
      by (simp add: search_contact_def)
    with before show ?thesis
      unfolding if_not_P [OF False] by (rule conjI)
  next
    case True
    let ?wa = "emit E (Get ?url) w4"
    let ?wb = "emit E (WaitUntil message_input) ?wa"
    have digits: "isdigit (py_replace contact ''+'' '''')"
      using True by (simp add: is_phone_def)
    have run: "search_contact E contact w =
      (case get_r E (length (trace w4)) ?url of
         Inl e \<Rightarrow>
           (Inr False,
            log E (if e = TimeoutException \<or> e = NoSuchElementException
                   then CouldNotFindContact contact
                   else ErrorSearchingForContact contact e) ?wa)
       | Inr u \<Rightarrow>
           (case wait_until_r E (Suc (length (trace w4))) message_input of
              Inl e \<Rightarrow>
                (Inr False,
                 log E (if e = TimeoutException \<or> e = NoSuchElementException
                        then CouldNotFindContact contact
                        else ErrorSearchingForContact contact e) ?wb)
            | Inr el \<Rightarrow> (Inr True, sleep E 2 ?wb)))"
    proof -
      from True have "direct_url E contact w4 =
          bnd (get E ?url) (\<lambda>u. bnd (wait_until E message_input) (\<lambda>el w.
            (Inr (Some True), sleep E 2 w))) w4"
        by (simp add: direct_url_def)
      with idle body chat show ?thesis
        by (simp add: search_contact_def find_and_click_def bnd_def get_def
            wait_until_def trace_emit split: sum.splits)
    qed
    have next_call: "take (Suc (length (trace w4))) (trace (snd (search_contact E contact w)))
         = trace w4 @ [Get ?url]"
      unfolding run by (simp add: log_def sleep_def trace_emit split: sum.splits)
    have success: "fst (search_contact E contact w) = Inr True \<longleftrightarrow>
          get_r E (length (trace w4)) ?url = Inr () \<and>
          (\<exists>el. wait_until_r E (Suc (length (trace w4))) message_input = Inr el)"
      unfolding run by (auto split: sum.splits)
    have events: "fst (search_contact E contact w) = Inr True \<longrightarrow>
          trace (snd (search_contact E contact w))
            = trace w4 @ [Get ?url, WaitUntil message_input, Sleep 2]"
      unfolding run by (simp add: log_def sleep_def trace_emit split: sum.splits)
    have failure: "fst (search_contact E contact w) \<noteq> Inr True \<longrightarrow>
          fst (search_contact E contact w) = Inr False \<and>
          (\<exists>e. (get_r E (length (trace w4)) ?url = Inl e \<or>
                wait_until_r E (Suc (length (trace w4))) message_input = Inl e) \<and>
               last (trace (snd (search_contact E contact w))) =
                 Log (if e = TimeoutException \<or> e = NoSuchElementException
                      then CouldNotFindContact contact
                      else ErrorSearchingForContact contact e))"
      unfolding run by (auto simp add: log_def trace_emit split: sum.splits)
    show ?thesis
      unfolding if_P [OF True]
      by (intro conjI) (rule before digits next_call success events failure)+
  qed
qed

text \<open>In the quiet browser no search result matches: for 14155552671 the direct URL is
  opened and the search succeeds, for 12345 nothing is opened and the search fails.\<close>

theorem direct_url_fallback_witness:
  "\<not> cancel_requested started \<and>
   find_box quiet search_xpath None started =
     (Some (Element 0),
      started\<lparr>trace := [WaitUntil (search_xpath ! 0), IsDisplayed (Element 0)]\<rparr>) \<and>
   is_phone ''14155552671'' \<and> 7 < length ''14155552671'' \<and>
   fst (search_contact quiet ''14155552671'' started) = Inr True \<and>
   trace (snd (search_contact quiet ''14155552671'' started)) =
     [WaitUntil (search_xpath ! 0), IsDisplayed (Element 0), Clear (Element 0),
      SendKeys (Element 0) (Text ''+14155552671''),
      Log (SearchingForPhoneNumber ''+14155552671''), Sleep 2] @
     map FindElements (xpath_patterns ''14155552671'') @
     [Get ''https://web.whatsapp.com/send?phone=14155552671'', WaitUntil message_input,
      Sleep 2] \<and>
   is_phone ''12345'' \<and> \<not> 7 < length ''12345'' \<and>
   search_contact quiet ''12345'' started =
     (Inr False,
      log quiet (CouldNotFindContact ''12345'')
        (started\<lparr>trace := [WaitUntil (search_xpath ! 0), IsDisplayed (Element 0),
            Clear (Element 0), SendKeys (Element 0) (Text ''12345''),
            Log (SearchingForPhoneNumber ''12345''), Sleep 2] @
            map FindElements (xpath_patterns ''12345'')\<rparr>))"
proof -
  let ?w1 = "started\<lparr>trace := [WaitUntil (search_xpath ! 0), IsDisplayed (Element 0)]\<rparr>"
  let ?w2 = "started\<lparr>trace := [WaitUntil (search_xpath ! 0), IsDisplayed (Element 0),
      Clear (Element 0)]\<rparr>"
  have idle: "\<not> cancel_requested started"
    by (simp add: started_def)
  have box: "find_box quiet search_xpath None started = (Some (Element 0), ?w1)"
    by (simp add: search_xpath_def wait_until_def is_displayed_def emit_def quiet_def started_def)
  have cleared: "clear quiet (Element 0) ?w1 = (Inr (), ?w2)"
    by (simp add: clear_def emit_def quiet_def started_def)
  have long: "is_phone ''14155552671''" "7 < length ''14155552671''"
    and short: "is_phone ''12345''" "\<not> 7 < length ''12345''"
    by (simp_all add: is_phone_def isdigit_def is_digit_char_def)
  have texts: "search_text ''14155552671'' = ''+14155552671''" "search_text ''12345'' = ''12345''"
    by (simp_all add: search_text_def is_phone_def isdigit_def is_digit_char_def)
  let ?w3 = "started\<lparr>trace := [WaitUntil (search_xpath ! 0), IsDisplayed (Element 0),
      Clear (Element 0), SendKeys (Element 0) (Text ''+14155552671'')]\<rparr>"
  let ?w4 = "started\<lparr>trace := [WaitUntil (search_xpath ! 0), IsDisplayed (Element 0),
      Clear (Element 0), SendKeys (Element 0) (Text ''+14155552671''),
      Log (SearchingForPhoneNumber ''+14155552671''), Sleep 2] @
      map FindElements (xpath_patterns ''14155552671'')\<rparr>"
  have typed: "send_keys quiet (Element 0) (Text (search_text ''14155552671'')) ?w2 = (Inr (), ?w3)"
    by (simp add: texts send_keys_def emit_def quiet_def started_def)
  have failed: "click_first quiet (xpath_patterns ''14155552671'')
        (sleep quiet 2 (log quiet (if is_phone ''14155552671''
           then SearchingForPhoneNumber (search_text ''14155552671'')
           else SearchingForContact ''14155552671'') ?w3)) = (None, ?w4)"
    by (simp add: long texts xpath_patterns_def find_elements_def sleep_def log_def emit_def
        quiet_def started_def)
  let ?v3 = "started\<lparr>trace := [WaitUntil (search_xpath ! 0), IsDisplayed (Element 0),
      Clear (Element 0), SendKeys (Element 0) (Text ''12345'')]\<rparr>"
  let ?v4 = "started\<lparr>trace := [WaitUntil (search_xpath ! 0), IsDisplayed (Element 0),
      Clear (Element 0), SendKeys (Element 0) (Text ''12345''),
      Log (SearchingForPhoneNumber ''12345''), Sleep 2] @
      map FindElements (xpath_patterns ''12345'')\<rparr>"
  have typed': "send_keys quiet (Element 0) (Text (search_text ''12345'')) ?w2 = (Inr (), ?v3)"
    by (simp add: texts send_keys_def emit_def quiet_def started_def)
  have failed': "click_first quiet (xpath_patterns ''12345'')
        (sleep quiet 2 (log quiet (if is_phone ''12345''
           then SearchingForPhoneNumber (search_text ''12345'')
           else SearchingForContact ''12345'') ?v3)) = (None, ?v4)"
    by (simp add: short texts xpath_patterns_def find_elements_def sleep_def log_def emit_def
        quiet_def started_def)
  have answers: "get_r quiet t url = Inr ()" "wait_until_r quiet t xp = Inr (Element 0)"
    for t url xp
    by (simp_all add: quiet_def)
  from direct_url_fallback [OF idle box cleared typed failed] long answers
  have far: "fst (search_contact quiet ''14155552671'' started) = Inr True \<and>
    trace (snd (search_contact quiet ''14155552671'' started))
      = trace ?w4 @ [Get (deep_link (py_replace ''14155552671'' ''+'' '''')),
                     WaitUntil message_input, Sleep 2]"
    by simp
  from direct_url_fallback [OF idle box cleared typed' failed'] short
  have near: "search_contact quiet ''12345'' started
      = (Inr False, log quiet (CouldNotFindContact ''12345'') ?v4)"
    by simp
  from far near idle box long short show ?thesis
    by (simp add: deep_link_def)
qed

subsection \<open>A file without a name column\<close>

lemma keys_setitem: "fst ` set (setitem d k v) = insert k (fst ` set d)"
  by (induction d k v rule: setitem.induct) auto

lemma keys_foldl_cells:
  "fst ` set (foldl (\<lambda>d (k, x). setitem d (Some k) (Cell x)) d0 kxs)
     = fst ` set d0 \<union> Some ` fst ` set kxs"
  by (induction kxs arbitrary: d0) (simp_all add: keys_setitem split_beta)

lemma keys_foldl_missing:
  "fst ` set (foldl (\<lambda>d k. setitem d (Some k) Missing) d0 ks) = fst ` set d0 \<union> Some ` set ks"
  by (induction ks arbitrary: d0) (simp_all add: keys_setitem)

text \<open>The string keys of a row of \<open>DictReader\<close> are field names of the header.\<close>

lemma keys_dict_row:
  assumes "Some k \<in> fst ` set (dict_row fieldnames row)"
  shows "k \<in> set fieldnames"
proof -
  have "fst ` set (dict_row fieldnames row)
          \<subseteq> insert None (Some ` fst ` set (zip fieldnames row)
               \<union> Some ` set (drop (length row) fieldnames))"
    by (auto simp add: dict_row_def Let_def keys_setitem keys_foldl_cells keys_foldl_missing)
  with assms have "k \<in> fst ` set (zip fieldnames row) \<or> k \<in> set (drop (length row) fieldnames)"
    by auto
  then show ?thesis
    by (auto dest: set_zip_leftD in_set_dropD)
qed

lemma read_rows_without_name:
  assumes "''name'' \<notin> set fieldnames"
  shows "read_rows E fieldnames reads [] w =
     (case dropWhile (\<lambda>r. r = Inr []) reads of
        [] \<Rightarrow> ([], w)
      | Inl e # rest \<Rightarrow> ([], log E (ErrorLoadingContactsFile e) w)
      | Inr row # rest \<Rightarrow> ([], log E CsvMustHaveNameColumn w))"
proof (induction reads)
  case Nil
  show ?case by simp
next
  case (Cons r reads)
  show ?case
  proof (cases r)
    case (Inl e)
    then show ?thesis by simp
  next
    case (Inr row)
    have "Some ''name'' \<notin> fst ` set (dict_row fieldnames row)"
      using assms keys_dict_row by blast
    with Inr Cons.IH show ?thesis
      by simp
  qed
qed

text \<open>Claim C7, as stated, fails: a file that has a header without a name column and no
  row after it gives the empty list, and no error is logged.\<close>

theorem header_only_counterexample:
  "load_contacts_from_csv quiet (Inr [Inr [''phone'', ''city'']]) started = ([], started)"
  by (simp add: load_contacts_from_csv_def)

text \<open>Claim C7, amended: a file whose header has no name column always gives the empty
  contact list, never a part of its rows. What is logged depends on the first read after
  the header that is not an empty row: the error about the name column when it is a row,
  the error about loading when that read fails, and nothing when there is no such
  read.\<close>

theorem csv_without_name_column:
  assumes "''name'' \<notin> set fieldnames"
  shows "load_contacts_from_csv E (Inr (Inr fieldnames # reads)) w =
     (case dropWhile (\<lambda>r. r = Inr []) reads of
        [] \<Rightarrow> ([], w)
      | Inl e # rest \<Rightarrow> ([], log E (ErrorLoadingContactsFile e) w)
      | Inr row # rest \<Rightarrow> ([], log E CsvMustHaveNameColumn w))"
  using read_rows_without_name [OF assms]
  by (simp add: load_contacts_from_csv_def)

theorem csv_without_name_column_witness:
  "''name'' \<notin> set [''phone'', ''city''] \<and>
   load_contacts_from_csv quiet
     (Inr [Inr [''phone'', ''city''], Inr [], Inr [''14155552671'', ''Paris'']]) started
     = ([], started\<lparr>trace := [Log CsvMustHaveNameColumn]\<rparr>)"
  using csv_without_name_column [of "[''phone'', ''city'']" quiet
      "[Inr [], Inr [''14155552671'', ''Paris'']]" started]
  by (simp add: log_def emit_def quiet_def started_def)

subsection \<open>Phone numbers\<close>

lemma set_py_replace_char: "set (py_replace s [a] []) = set s - {a}"
  by (induction s) auto

text \<open>A phone number is not empty and has no whitespace.\<close>

lemma is_phone_chars:
  assumes "is_phone p"
  shows "p \<noteq> []" and "\<forall>c\<in>set p. \<not> is_space c"
proof -
  from assms have ne: "py_replace p ''+'' '''' \<noteq> []"
    and digits: "\<forall>c\<in>set (py_replace p ''+'' ''''). is_digit_char c"
    by (simp_all add: is_phone_def isdigit_def list_all_iff)
  from ne show "p \<noteq> []"
    by auto
  have "\<not> is_space c" if "c \<in> set p" for c
  proof (cases "c = CHR ''+''")
    case True
    then show ?thesis by (simp add: is_space_def)
  next
    case False
    with that digits have "is_digit_char c"
      by (simp add: set_py_replace_char)
    then show ?thesis
      by (auto simp add: is_digit_char_def is_space_def)
  qed
  then show "\<forall>c\<in>set p. \<not> is_space c"
    by blast
qed

lemma strip_no_space:
  assumes "\<forall>c\<in>set s. \<not> is_space c"
  shows "strip s = s"
proof -
  have keep: "dropWhile is_space xs = xs" if "\<forall>c\<in>set xs. \<not> is_space c" for xs
    using that by (cases xs) simp_all
  from assms have "dropWhile is_space s = s"
    by (rule keep)
  moreover from assms have "dropWhile is_space (rev s) = rev s"
    by (intro keep) simp
  ultimately show ?thesis
    by (simp add: strip_def)
qed

text \<open>Claim C2: for an identifier that is all digits once its plus signs are removed,
  the text \<open>search_contact\<close> types and the name \<open>add_phone\<close> stores are the identifier with a
  plus sign put in front exactly when it is longer than seven characters and does not
  start with a plus sign; otherwise they are the identifier itself.\<close>

theorem phone_normalisation:
  assumes "is_phone p"
  shows "search_text p = (if 7 < length p \<and> \<not> startswith p ''+'' then ''+'' @ p else p) \<and>
    add_phone p manual_contacts =
      Added (manual_contacts @
        [[(''name'', if 7 < length p \<and> \<not> startswith p ''+'' then ''+'' @ p else p)]])"
proof -
  from is_phone_chars [OF assms] have "strip p = p" and "p \<noteq> []"
    by (simp_all add: strip_no_space)
  with assms show ?thesis
    by (auto simp add: search_text_def add_phone_def is_phone_def Let_def)
qed

theorem phone_normalisation_witness:
  "is_phone ''14155552671'' \<and> is_phone ''+14155552671'' \<and> is_phone ''123'' \<and>
   search_text ''14155552671'' = ''+14155552671'' \<and>
   add_phone ''14155552671'' [] = Added [[(''name'', ''+14155552671'')]] \<and>
   search_text ''+14155552671'' = ''+14155552671'' \<and>
   add_phone ''+14155552671'' [] = Added [[(''name'', ''+14155552671'')]] \<and>
   search_text ''123'' = ''123'' \<and>
   add_phone ''123'' [] = Added [[(''name'', ''123'')]]"
proof -
  have a: "is_phone ''14155552671''" and b: "is_phone ''+14155552671''" and c: "is_phone ''123''"
    by (simp_all add: is_phone_def isdigit_def is_digit_char_def)
  from phone_normalisation [OF a, of "[]"] phone_normalisation [OF b, of "[]"]
    phone_normalisation [OF c, of "[]"] a b c
  show ?thesis
    by simp
qed

subsection \<open>The bulk entry of phone numbers\<close>

lemma runs_all_separators: "\<forall>c\<in>set b. Q c \<Longrightarrow> runs Q [] b = []"
  by (induction b) simp_all

lemma runs_trailing:
  "\<forall>c\<in>set b. Q c \<Longrightarrow> runs Q acc (xs @ b) = runs Q acc xs"
proof (induction xs arbitrary: acc)
  case Nil
  then show ?case
    by (cases b) (simp_all add: runs_all_separators)
next
  case (Cons x xs)
  then show ?case by simp
qed

lemma runs_leading:
  "(\<And>c. W c \<Longrightarrow> Q c) \<Longrightarrow> runs Q [] (dropWhile W s) = runs Q [] s"
  by (induction s) auto

lemma runs_at_separator:
  "P n \<Longrightarrow> runs P acc (xs @ n # ys) = runs P acc xs @ runs P [] ys"
  by (induction xs arbitrary: acc) simp_all

lemma concat_runs_split_on:
  "P n \<Longrightarrow> concat (map (runs P []) (split_on n cur s)) = runs P [] (cur @ s)"
proof (induction s arbitrary: cur)
  case Nil
  then show ?case by simp
next
  case (Cons c s)
  show ?case
  proof (cases "c = n")
    case True
    with Cons.prems Cons.IH [of "[]"] show ?thesis
      by (simp add: runs_at_separator)
  next
    case False
    with Cons.prems Cons.IH [of "cur @ [c]"] show ?thesis
      by simp
  qed
qed

lemma py_replace_char:
  "py_replace s [a] [b] = map (\<lambda>c. if c = a then b else c) s"
  by (induction s) simp_all

lemma runs_map:
  assumes "\<And>c. P (r c) = Q c" and "\<And>c. \<not> Q c \<Longrightarrow> r c = c"
  shows "runs P acc (map r s) = runs Q acc s"
  using assms by (induction s arbitrary: acc) simp_all

lemma runs_strip:
  assumes "\<And>c. is_space c \<Longrightarrow> Q c"
  shows "runs Q [] (strip s) = runs Q [] s"
proof -
  let ?t = "dropWhile is_space s"
  have split: "?t = rev (dropWhile is_space (rev ?t)) @ rev (takeWhile is_space (rev ?t))"
    by (metis rev_append rev_rev_ident takeWhile_dropWhile_id)
  have "\<forall>c\<in>set (rev (takeWhile is_space (rev ?t))). Q c"
    using assms by (auto dest: set_takeWhileD)
  then have "runs Q [] (rev (dropWhile is_space (rev ?t)) @ rev (takeWhile is_space (rev ?t)))
      = runs Q [] (rev (dropWhile is_space (rev ?t)))"
    by (rule runs_trailing)
  with split have "runs Q [] (strip s) = runs Q [] ?t"
    by (simp add: strip_def)
  also have "\<dots> = runs Q [] s"
    using assms by (rule runs_leading)
  finally show ?thesis .
qed

lemma split_ws_eq: "split_ws = runs is_space []"
  by (rule ext) (simp add: split_ws_def)

lemma potential_numbers_runs: "potential_numbers text = runs separator [] text"
proof -
  define r where "r = (\<lambda>c. if c = CHR '','' \<or> c = CHR '';'' then CHR 0x0A else c)"
  have nl: "is_space CHR 0x0A"
    by (simp add: is_space_def)
  have twice: "py_replace (py_replace s '','' [CHR 0x0A]) '';'' [CHR 0x0A] = map r s" for s
    by (simp add: py_replace_char r_def)
  have "potential_numbers text = runs is_space [] (map r (strip text))"
    unfolding potential_numbers_def twice split_ws_eq
    using concat_runs_split_on [of is_space "CHR 0x0A" "[]" "map r (strip text)", OF nl]
    by simp
  also have "\<dots> = runs separator [] (strip text)"
    by (rule runs_map) (auto simp add: separator_def is_space_def r_def)
  also have "\<dots> = runs separator [] text"
    by (rule runs_strip) (simp add: separator_def)
  finally show ?thesis .
qed

lemma runs_pieces:
  assumes "\<forall>c\<in>set acc. \<not> Q c" and "t \<in> set (runs Q acc s)"
  shows "t \<noteq> [] \<and> (\<forall>c\<in>set t. \<not> Q c)"
  using assms
proof (induction s arbitrary: acc)
  case Nil
  then have "acc \<noteq> []" and "t = acc"
    by (simp_all split: if_splits)
  with Nil.prems(1) show ?case
    by simp
next
  case (Cons c s)
  show ?case
  proof (cases "Q c")
    case True
    with Cons.prems(2) have "(acc \<noteq> [] \<and> t = acc) \<or> t \<in> set (runs Q [] s)"
      by (simp split: if_splits)
    then show ?thesis
    proof
      assume "acc \<noteq> [] \<and> t = acc"
      with Cons.prems(1) show ?thesis
        by simp
    next
      assume "t \<in> set (runs Q [] s)"
      then show ?thesis
        by (intro Cons.IH [of "[]"]) simp_all
    qed
  next
    case False
    with Cons.prems(2) have "t \<in> set (runs Q (acc @ [c]) s)"
      by simp
    moreover from False Cons.prems(1) have "\<forall>x\<in>set (acc @ [c]). \<not> Q x"
      by simp
    ultimately show ?thesis
      by (intro Cons.IH [of "acc @ [c]"])
  qed
qed

lemma foldl_add_number:
  assumes "\<forall>t\<in>set ts. t \<noteq> [] \<and> (\<forall>c\<in>set t. \<not> is_space c)"
  shows "foldl add_number (cs, a, i) ts =
     (cs @ map (\<lambda>t. [(''name'', if 7 < length t \<and> \<not> startswith t ''+'' then ''+'' @ t else t)])
             (filter is_phone ts),
      a + length (filter is_phone ts),
      i + length (filter (\<lambda>t. \<not> is_phone t) ts))"
  using assms
proof (induction ts arbitrary: cs a i)
  case Nil
  then show ?case by simp
next
  case (Cons t ts)
  then have "strip t = t" and "t \<noteq> []"
    by (simp_all add: strip_no_space)
  then have step: "add_number (cs, a, i) t =
      (if is_phone t
       then (cs @ [[(''name'', if 7 < length t \<and> \<not> startswith t ''+'' then ''+'' @ t else t)]],
             a + 1, i)
       else (cs, a, i + 1))"
    by (auto simp add: add_number_def is_phone_def Let_def)
  from Cons.prems have rest: "\<forall>t\<in>set ts. t \<noteq> [] \<and> (\<forall>c\<in>set t. \<not> is_space c)"
    by simp
  show ?case
    by (simp add: step Cons.IH [OF rest])
qed

text \<open>Claim C6, as stated, fails: the code splits every line with \<open>split()\<close>, at any
  whitespace and not only at spaces. For two numbers with a tab between them the four
  named separators give one candidate, which is not all digits, but \<open>add_bulk_phones\<close> has
  two candidates and adds both.\<close>

theorem tab_counterexample:
  "runs named_separator [] [CHR ''1'', CHR ''1'', CHR ''1'', CHR 0x09, CHR ''2'', CHR ''2'', CHR ''2'']
     = [[CHR ''1'', CHR ''1'', CHR ''1'', CHR 0x09, CHR ''2'', CHR ''2'', CHR ''2'']] \<and>
   potential_numbers [CHR ''1'', CHR ''1'', CHR ''1'', CHR 0x09, CHR ''2'', CHR ''2'', CHR ''2'']
     = [''111'', ''222''] \<and>
   add_bulk_phones [CHR ''1'', CHR ''1'', CHR ''1'', CHR 0x09, CHR ''2'', CHR ''2'', CHR ''2''] []
     = ([[(''name'', ''111'')], [(''name'', ''222'')]], 2, 0)"
proof -
  have named: "runs named_separator []
        [CHR ''1'', CHR ''1'', CHR ''1'', CHR 0x09, CHR ''2'', CHR ''2'', CHR ''2'']
      = [[CHR ''1'', CHR ''1'', CHR ''1'', CHR 0x09, CHR ''2'', CHR ''2'', CHR ''2'']]"
    by (simp add: named_separator_def)
  have stripped: "strip [CHR ''1'', CHR ''1'', CHR ''1'', CHR 0x09, CHR ''2'', CHR ''2'', CHR ''2'']
      = [CHR ''1'', CHR ''1'', CHR ''1'', CHR 0x09, CHR ''2'', CHR ''2'', CHR ''2'']"
    by (simp add: strip_def is_space_def)
  have cands: "potential_numbers
        [CHR ''1'', CHR ''1'', CHR ''1'', CHR 0x09, CHR ''2'', CHR ''2'', CHR ''2'']
      = [''111'', ''222'']"
    unfolding potential_numbers_def stripped
    by (simp add: split_ws_def is_space_def)
  have one: "strip ''111'' = ''111''" and two: "strip ''222'' = ''222''"
    by (simp_all add: strip_def is_space_def)
  have added: "add_bulk_phones
        [CHR ''1'', CHR ''1'', CHR ''1'', CHR 0x09, CHR ''2'', CHR ''2'', CHR ''2''] []
      = ([[(''name'', ''111'')], [(''name'', ''222'')]], 2, 0)"
    unfolding add_bulk_phones_def cands stripped
    by (simp add: add_number_def one two isdigit_def is_digit_char_def)
  from named cands added show ?thesis
    by (simp only: simp_thms)
qed

text \<open>Claim C6, amended: the candidates are the maximal runs of characters that are
  neither a comma, a semicolon nor whitespace (newline, space, tab and the other
  whitespace characters), in order; a candidate is added exactly when it is all digits
  once its plus signs are removed, with a plus sign put in front when it is longer than
  seven characters and has none in front, and counted as invalid otherwise.\<close>

theorem bulk_phone_parsing:
  "add_bulk_phones text manual_contacts =
     (manual_contacts @
        map (\<lambda>t. [(''name'', if 7 < length t \<and> \<not> startswith t ''+'' then ''+'' @ t else t)])
          (filter is_phone (runs separator [] text)),
      length (filter is_phone (runs separator [] text)),
      length (filter (\<lambda>t. \<not> is_phone t) (runs separator [] text)))"
proof (cases "strip text = []")
  case True
  have "runs separator [] (strip text) = runs separator [] text"
    by (rule runs_strip) (simp add: separator_def)
  with True have "runs separator [] text = []"
    by simp
  with True show ?thesis
    by (simp add: add_bulk_phones_def)
next
  case False
  have "t \<noteq> [] \<and> (\<forall>c\<in>set t. \<not> is_space c)" if "t \<in> set (runs separator [] text)" for t
    using runs_pieces [where acc = "[]" and Q = separator and s = "text" and t = t] that
    by (auto simp add: separator_def)
  then have pieces: "\<forall>t\<in>set (runs separator [] text). t \<noteq> [] \<and> (\<forall>c\<in>set t. \<not> is_space c)"
    by blast
  from foldl_add_number [OF pieces, of manual_contacts 0 0] False show ?thesis
    by (simp add: add_bulk_phones_def potential_numbers_runs)
qed

theorem bulk_phone_parsing_witness:
  "runs separator [] ''111, 222;333 444'' = [''111'', ''222'', ''333'', ''444''] \<and>
   add_bulk_phones ''111, 222;333 444'' [] =
     ([[(''name'', ''111'')], [(''name'', ''222'')], [(''name'', ''333'')], [(''name'', ''444'')]],
      4, 0)"
proof -
  have toks: "runs separator [] ''111, 222;333 444'' = [''111'', ''222'', ''333'', ''444'']"
    by (simp add: separator_def is_space_def)
  have phones: "is_phone ''111''" "is_phone ''222''" "is_phone ''333''" "is_phone ''444''"
    by (simp_all add: is_phone_def isdigit_def is_digit_char_def)
  have "add_bulk_phones ''111, 222;333 444'' [] =
     ([[(''name'', ''111'')], [(''name'', ''222'')], [(''name'', ''333'')], [(''name'', ''444'')]],
      4, 0)"
    unfolding bulk_phone_parsing [of "''111, 222;333 444''" "[]"] toks
    by (simp add: phones)
  with toks show ?thesis
    by (simp only: simp_thms)
qed

subsection \<open>Templates\<close>














declare substitute.simps(2) [simp del]





text \<open>The same happens without a brace in any value when placeholders are nested.\<close>

lemma nested_template_example:
  "personalize ''{{name}}'' ''id'' [(''name'', ''id''), (''id'', ''7'')] = ''7'' \<and>
   substitute (map_of [(''name'', ''id''), (''id'', ''7'')]) ''{{name}}'' = ''{id}''"
  by (simp add: personalize_def placeholder_def substitute.simps(2))



subsection \<open>Cooperative cancellation\<close>

text \<open>The operations on the browser, the searches, the sending of a message and the wait
  between two contacts neither open a contact nor tally one, and they set the flag exactly
  when the user asks for cancellation while they run.\<close>

lemma cancelled_in_empty: "\<not> cancelled_in E a a"
  by (simp add: cancelled_in_def)

lemma cancelled_in_one: "cancelled_in E a (Suc a) = cancel_at E a"
  by (auto simp add: cancelled_in_def less_Suc_eq_le)

lemma cancelled_in_split:
  assumes "a \<le> b" and "b \<le> c"
  shows "cancelled_in E a c \<longleftrightarrow> cancelled_in E a b \<or> cancelled_in E b c"
proof
  assume "cancelled_in E a c"
  then obtain t where t: "a \<le> t" "t < c" "cancel_at E t"
    unfolding cancelled_in_def by blast
  show "cancelled_in E a b \<or> cancelled_in E b c"
  proof (cases "t < b")
    case True
    with t have "cancelled_in E a b"
      unfolding cancelled_in_def by blast
    then show ?thesis ..
  next
    case False
    then have "b \<le> t" by simp
    with t have "cancelled_in E b c"
      unfolding cancelled_in_def by blast
    then show ?thesis ..
  qed
next
  assume "cancelled_in E a b \<or> cancelled_in E b c"
  then show "cancelled_in E a c"
  proof
    assume "cancelled_in E a b"
    then obtain t where "a \<le> t" "t < b" "cancel_at E t"
      unfolding cancelled_in_def by blast
    with assms(2) have "a \<le> t \<and> t < c \<and> cancel_at E t"
      by simp
    then show ?thesis
      unfolding cancelled_in_def by blast
  next
    assume "cancelled_in E b c"
    then obtain t where "b \<le> t" "t < c" "cancel_at E t"
      unfolding cancelled_in_def by blast
    with assms(1) have "a \<le> t \<and> t < c \<and> cancel_at E t"
      by simp
    then show ?thesis
      unfolding cancelled_in_def by blast
  qed
qed

lemma follows_refl: "follows E w w"
  by (simp add: follows_def cancelled_in_empty)

lemma follows_emit: "inner ev \<Longrightarrow> follows E w (emit E ev w)"
  by (simp add: follows_def emit_def cancelled_in_one)

lemma follows_trans:
  assumes "follows E w w1" and "follows E w1 w2"
  shows "follows E w w2"
proof -
  from assms(1) obtain e1 where e1: "trace w1 = trace w @ e1" "list_all inner e1"
    and c1: "cancel_requested w1 =
      (cancel_requested w \<or> cancelled_in E (length (trace w)) (length (trace w1)))"
    unfolding follows_def by blast
  from assms(2) obtain e2 where e2: "trace w2 = trace w1 @ e2" "list_all inner e2"
    and c2: "cancel_requested w2 =
      (cancel_requested w1 \<or> cancelled_in E (length (trace w1)) (length (trace w2)))"
    unfolding follows_def by blast
  have tr: "trace w2 = trace w @ (e1 @ e2)" and quiet: "list_all inner (e1 @ e2)"
    using e1 e2 by simp_all
  have "length (trace w) \<le> length (trace w1)" and "length (trace w1) \<le> length (trace w2)"
    using e1 e2 by simp_all
  then have "cancelled_in E (length (trace w)) (length (trace w2)) \<longleftrightarrow>
      cancelled_in E (length (trace w)) (length (trace w1)) \<or>
      cancelled_in E (length (trace w1)) (length (trace w2))"
    by (rule cancelled_in_split)
  with c1 c2 have "cancel_requested w2 =
      (cancel_requested w \<or> cancelled_in E (length (trace w)) (length (trace w2)))"
    by simp
  with tr quiet show ?thesis
    unfolding follows_def by blast
qed

lemma follows_first:
  "inner ev \<Longrightarrow> follows E (emit E ev w) w1 \<Longrightarrow> follows E w w1"
  using follows_emit follows_trans by blast


lemma follows_log: "inner (Log line) \<Longrightarrow> follows E w (log E line w)"
  by (simp add: log_def follows_emit)

lemma follows_sleep: "follows E w (sleep E n w)"
  by (simp add: sleep_def follows_emit inner_def is_tally_def)

lemma follows_calls:
  "wait_until E xp w = (r1, w1) \<Longrightarrow> follows E w w1"
  "is_displayed E el w = (r2, w1) \<Longrightarrow> follows E w w1"
  "clear E el w = (r3, w1) \<Longrightarrow> follows E w w1"
  "send_keys E el k w = (r4, w1) \<Longrightarrow> follows E w w1"
  "find_elements E xp w = (r5, w1) \<Longrightarrow> follows E w w1"
  "click E el w = (r6, w1) \<Longrightarrow> follows E w w1"
  "get E url w = (r7, w1) \<Longrightarrow> follows E w w1"
  by (auto simp add: wait_until_def is_displayed_def clear_def send_keys_def find_elements_def
      click_def get_def follows_emit inner_def is_tally_def)

lemma follows_find_box: "find_box E xps box w = (r, w1) \<Longrightarrow> follows E w w1"
proof (induction xps arbitrary: box w)
  case Nil
  then show ?case by (simp add: follows_refl)
next
  case (Cons xp xps)
  obtain r1 wa where a: "wait_until E xp w = (r1, wa)"
    by (cases "wait_until E xp w")
  note fa = follows_calls(1) [OF a]
  show ?case
  proof (cases r1)
    case (Inl e)
    with Cons.prems a have "find_box E xps box wa = (r, w1)"
      by simp
    then have "follows E wa w1"
      by (rule Cons.IH)
    with fa show ?thesis
      by (rule follows_trans)
  next
    case (Inr el)
    obtain r2 wb where b: "is_displayed E el wa = (r2, wb)"
      by (cases "is_displayed E el wa")
    from fa follows_calls(2) [OF b] have fb: "follows E w wb"
      by (rule follows_trans)
    show ?thesis
    proof (cases "r2 = Inr True")
      case True
      with Cons.prems a b Inr have "w1 = wb"
        by simp
      with fb show ?thesis
        by simp
    next
      case False
      with Cons.prems a b Inr have "find_box E xps (Some el) wb = (r, w1)"
        by (cases r2) simp_all
      then have "follows E wb w1"
        by (rule Cons.IH)
      with fb show ?thesis
        by (rule follows_trans)
    qed
  qed
qed

lemma follows_click_first: "click_first E xps w = (r, w1) \<Longrightarrow> follows E w w1"
proof (induction xps arbitrary: w)
  case Nil
  then show ?case by (simp add: follows_refl)
next
  case (Cons xp xps)
  show ?case
  proof (cases "cancel_requested w")
    case True
    with Cons.prems show ?thesis
      by (simp add: follows_refl)
  next
    case False
    obtain r1 wa where a: "find_elements E xp w = (r1, wa)"
      by (cases "find_elements E xp w")
    note fa = follows_calls(5) [OF a]
    consider (skip) "click_first E xps wa = (r, w1)"
      | (hit) el els where "r1 = Inr (el # els)"
      using Cons.prems False a by (cases r1; cases "projr r1") (auto split: list.splits)
    then show ?thesis
    proof cases
      case skip
      then have "follows E wa w1"
        by (rule Cons.IH)
      with fa show ?thesis
        by (rule follows_trans)
    next
      case hit
      obtain r2 wb where b: "click E el wa = (r2, wb)"
        by (cases "click E el wa")
      from fa follows_calls(6) [OF b] have fb: "follows E w wb"
        by (rule follows_trans)
      show ?thesis
      proof (cases r2)
        case (Inl e)
        with Cons.prems False a b hit have "click_first E xps wb = (r, w1)"
          by simp
        then have "follows E wb w1"
          by (rule Cons.IH)
        with fb show ?thesis
          by (rule follows_trans)
      next
        case (Inr u)
        with Cons.prems False a b hit have "w1 = sleep E 1 wb"
          by simp
        with fb follows_sleep [of E wb 1] show ?thesis
          by (auto intro: follows_trans)
      qed
    qed
  qed
qed


lemma silentI: "(\<And>w r w1. m w = (r, w1) \<Longrightarrow> follows E w w1) \<Longrightarrow> silent E m"
  unfolding silent_def by (metis prod.collapse)

lemma silentD: "silent E m \<Longrightarrow> m w = (r, w1) \<Longrightarrow> follows E w w1"
  unfolding silent_def by (metis snd_conv)

lemma silent_calls:
  "silent E (wait_until E xp)" "silent E (is_displayed E el)" "silent E (clear E el)"
  "silent E (send_keys E el k)" "silent E (find_elements E xp)" "silent E (click E el)"
  "silent E (get E url)"
  by (auto intro!: silentI dest: follows_calls)

lemma silent_find_box: "silent E (find_box E xps box)"
  by (auto intro!: silentI dest: follows_find_box)

lemma silent_click_first: "silent E (click_first E xps)"
  by (auto intro!: silentI dest: follows_click_first)

lemma silent_bnd: "silent E m \<Longrightarrow> (\<And>x. silent E (f x)) \<Longrightarrow> silent E (bnd m f)"
proof (rule silentI)
  fix w r w2
  assume m: "silent E m" and f: "\<And>x. silent E (f x)" and run: "bnd m f w = (r, w2)"
  obtain r1 w1 where a: "m w = (r1, w1)"
    by (cases "m w")
  from m a have fa: "follows E w w1"
    by (rule silentD)
  show "follows E w w2"
  proof (cases r1)
    case (Inl e)
    with run a have "w2 = w1"
      by (simp add: bnd_def)
    with fa show ?thesis
      by simp
  next
    case (Inr x)
    with run a have "f x w1 = (r, w2)"
      by (simp add: bnd_def)
    with f have "follows E w1 w2"
      by (rule silentD)
    with fa show ?thesis
      by (rule follows_trans)
  qed
qed

lemma silent_return: "silent E (\<lambda>w. (r, w))"
  by (simp add: silent_def follows_refl)

lemma silent_sleep: "silent E (\<lambda>w. (r, sleep E n w))"
  by (simp add: silent_def follows_sleep)

lemma silent_log: "inner (Log line) \<Longrightarrow> silent E (\<lambda>w. (r, log E line w))"
  by (simp add: silent_def follows_log)

lemma silent_direct_url: "silent E (direct_url E contact)"
  unfolding direct_url_def
  by (auto intro!: silent_bnd silent_calls silent_sleep silent_return)

lemma silent_open_chat: "silent E (open_chat E contact)"
proof (rule silentI)
  fix w r w2
  assume run: "open_chat E contact w = (r, w2)"
  obtain r1 w1 where a: "click_first E (xpath_patterns contact) w = (r1, w1)"
    by (cases "click_first E (xpath_patterns contact) w")
  then have fa: "follows E w w1"
    by (rule follows_click_first)
  show "follows E w w2"
  proof (cases r1)
    case None
    with run a have "direct_url E contact w1 = (r, w2)"
      by (simp add: open_chat_def)
    with silent_direct_url have "follows E w1 w2"
      by (rule silentD)
    with fa show ?thesis
      by (rule follows_trans)
  next
    case (Some b)
    with run a have "w2 = w1"
      by (simp add: open_chat_def)
    with fa show ?thesis
      by simp
  qed
qed

lemma silent_find_and_click: "silent E (find_and_click E contact)"
proof (rule silentI)
  fix w r w2
  assume run: "find_and_click E contact w = (r, w2)"
  obtain r1 w1 where a: "open_chat E contact w = (r1, w1)"
    by (cases "open_chat E contact w")
  with silent_open_chat have fa: "follows E w w1"
    by (rule silentD)
  from run a have "w2 = w1 \<or> w2 = log E (CouldNotFindContact contact) w1"
    by (auto simp add: find_and_click_def split: sum.splits option.splits if_splits)
  then show "follows E w w2"
  proof
    assume "w2 = w1"
    with fa show ?thesis
      by simp
  next
    assume "w2 = log E (CouldNotFindContact contact) w1"
    moreover have "follows E w1 (log E (CouldNotFindContact contact) w1)"
      by (simp add: follows_log inner_def is_tally_def)
    ultimately show ?thesis
      using fa by (auto intro: follows_trans)
  qed
qed


lemma silent_seq:
  assumes "silent E m" and "\<And>x. silent E (k x)"
  shows "silent E (\<lambda>w. k (fst (m w)) (snd (m w)))"
proof (rule silentI)
  fix w r w2
  assume run: "k (fst (m w)) (snd (m w)) = (r, w2)"
  from assms(1) have "follows E w (snd (m w))"
    by (simp add: silent_def)
  moreover from assms(2) run have "follows E (snd (m w)) w2"
    by (rule silentD)
  ultimately show "follows E w w2"
    by (rule follows_trans)
qed

lemma silent_after:
  assumes "silent E m" and "\<And>w. follows E w (g w)"
  shows "silent E (\<lambda>w. m (g w))"
proof (rule silentI)
  fix w r w2
  assume "m (g w) = (r, w2)"
  with assms(1) have "follows E (g w) w2"
    by (rule silentD)
  with assms(2) show "follows E w w2"
    by (rule follows_trans)
qed

lemma follows_announce:
  "follows E w (sleep E 2 (log E (if is_phone contact
                      then SearchingForPhoneNumber (search_text contact)
                      else SearchingForContact contact) w))"
  by (rule follows_trans [OF follows_log follows_sleep]) (simp add: inner_def is_tally_def)

lemma silent_search_body: "silent E (search_body E contact)"
proof -
  let ?k = "\<lambda>box. case box of
        None \<Rightarrow> (\<lambda>w1. (Inr False, log E CouldNotFindSearchBox w1))
      | Some search_box \<Rightarrow>
          bnd (clear E search_box) (\<lambda>u.
          bnd (send_keys E search_box (Text (search_text contact))) (\<lambda>u w2.
          find_and_click E contact
            (sleep E 2
              (log E (if is_phone contact
                      then SearchingForPhoneNumber (search_text contact)
                      else SearchingForContact contact) w2))))"
  have k: "silent E (?k box)" for box
  proof (cases box)
    case None
    then show ?thesis
      by (simp add: silent_log inner_def is_tally_def)
  next
    case (Some search_box)
    have "silent E (\<lambda>w2. find_and_click E contact
            (sleep E 2
              (log E (if is_phone contact
                      then SearchingForPhoneNumber (search_text contact)
                      else SearchingForContact contact) w2)))"
      by (rule silent_after [OF silent_find_and_click follows_announce])
    with Some show ?thesis
      by (simp add: silent_bnd silent_calls)
  qed
  have "search_body E contact = (\<lambda>w. ?k (fst (find_box E search_xpath None w))
                                        (snd (find_box E search_xpath None w)))"
    by (rule ext) (simp add: search_body_def split: prod.splits option.splits)
  with silent_seq [of E "find_box E search_xpath None" ?k, OF silent_find_box k]
  show ?thesis
    by simp
qed

lemma search_contact_returns: "\<exists>b w1. search_contact E contact w = (Inr b, w1) \<and> follows E w w1"
proof (cases "cancel_requested w")
  case True
  then show ?thesis
    by (auto simp add: search_contact_def follows_refl)
next
  case False
  obtain r1 w1 where a: "search_body E contact w = (r1, w1)"
    by (cases "search_body E contact w")
  with silent_search_body have fa: "follows E w w1"
    by (rule silentD)
  show ?thesis
  proof (cases r1)
    case (Inl e)
    have "follows E w1 (log E (ErrorSearchingForContact contact e) w1)"
      by (simp add: follows_log inner_def is_tally_def)
    with fa have "follows E w (log E (ErrorSearchingForContact contact e) w1)"
      by (rule follows_trans)
    with False a Inl show ?thesis
      by (auto simp add: search_contact_def)
  next
    case (Inr b)
    with False a fa show ?thesis
      by (simp add: search_contact_def)
  qed
qed

lemma follows_click_button: "click_button E buttons w = (r, w1) \<Longrightarrow> follows E w w1"
proof (induction buttons arbitrary: w)
  case Nil
  then show ?case by (simp add: follows_refl)
next
  case (Cons button buttons)
  obtain r1 wa where a: "is_displayed E button w = (r1, wa)"
    by (cases "is_displayed E button w")
  note fa = follows_calls(2) [OF a]
  obtain r2 wb where b: "click E button wa = (r2, wb)"
    by (cases "click E button wa")
  from fa follows_calls(6) [OF b] have fb: "follows E w wb"
    by (rule follows_trans)
  from fb follows_sleep [of E wb 1] have fc: "follows E w (sleep E 1 wb)"
    by (rule follows_trans)
  from Cons.prems a b
  have "w1 = wa \<or> w1 = wb \<or> w1 = sleep E 1 wb \<or> click_button E buttons wa = (r, w1)"
    by (auto split: sum.splits if_splits)
  with fa fb fc Cons.IH [of wa] show ?case
    by (auto intro: follows_trans)
qed

lemma follows_dismiss_popup: "follows E w (dismiss_popup E w)"
proof -
  obtain r1 wa where a: "find_elements E popup_buttons w = (r1, wa)"
    by (cases "find_elements E popup_buttons w")
  note fa = follows_calls(5) [OF a]
  show ?thesis
  proof (cases r1)
    case (Inl e)
    with a fa show ?thesis
      by (simp add: dismiss_popup_def)
  next
    case (Inr buttons)
    have "follows E wa (snd (click_button E buttons wa))"
      by (rule follows_click_button [of E buttons wa "fst (click_button E buttons wa)"]) simp
    with fa have "follows E w (snd (click_button E buttons wa))"
      by (rule follows_trans)
    with a Inr show ?thesis
      by (simp add: dismiss_popup_def)
  qed
qed

lemma follows_type_lines: "type_lines E box lines w = (r, w1) \<Longrightarrow> follows E w w1"
proof (induction lines arbitrary: w)
  case Nil
  then show ?case by (simp add: follows_refl)
next
  case (Cons line lines)
  obtain r1 wa where a: "send_keys E box (Text line) w = (r1, wa)"
    by (cases "send_keys E box (Text line) w")
  note fa = follows_calls(4) [OF a]
  obtain r2 wb where b: "send_keys E box ShiftEnter wa = (r2, wb)"
    by (cases "send_keys E box ShiftEnter wa")
  from fa follows_calls(4) [OF b] have fb: "follows E w wb"
    by (rule follows_trans)
  from Cons.prems a b
  have "w1 = wa \<or> w1 = wb \<or> type_lines E box lines wb = (r, w1)"
    by (auto split: sum.splits)
  with fa fb Cons.IH [of wb] show ?case
    by (auto intro: follows_trans)
qed

lemma silent_type_lines: "silent E (type_lines E box lines)"
  by (auto intro!: silentI dest: follows_type_lines)

lemma silent_send_body: "silent E (send_body E message)"
proof -
  let ?k = "\<lambda>box. case box of
        None \<Rightarrow> (\<lambda>w1. (Inr False, log E CouldNotFindMessageBox w1))
      | Some message_box \<Rightarrow> (\<lambda>w1.
          bnd (clear E message_box) (\<lambda>u.
          bnd (type_lines E message_box (split_on CHR 0x0A [] message)) (\<lambda>u.
          bnd (send_keys E message_box Backspace) (\<lambda>u.
          bnd (send_keys E message_box Enter) (\<lambda>u w2.
          (Inr True, sleep E 1 w2))))) (dismiss_popup E w1))"
  have k: "silent E (?k box)" for box
  proof (cases box)
    case None
    then show ?thesis
      by (simp add: silent_log inner_def is_tally_def)
  next
    case (Some message_box)
    have "silent E (bnd (clear E message_box) (\<lambda>u.
          bnd (type_lines E message_box (split_on CHR 0x0A [] message)) (\<lambda>u.
          bnd (send_keys E message_box Backspace) (\<lambda>u.
          bnd (send_keys E message_box Enter) (\<lambda>u w2.
          (Inr True, sleep E 1 w2))))))"
      by (intro silent_bnd silent_calls silent_type_lines silent_sleep)
    then have "silent E (\<lambda>w1. bnd (clear E message_box) (\<lambda>u.
          bnd (type_lines E message_box (split_on CHR 0x0A [] message)) (\<lambda>u.
          bnd (send_keys E message_box Backspace) (\<lambda>u.
          bnd (send_keys E message_box Enter) (\<lambda>u w2.
          (Inr True, sleep E 1 w2))))) (dismiss_popup E w1))"
      by (rule silent_after) (rule follows_dismiss_popup)
    with Some show ?thesis
      by simp
  qed
  have "send_body E message = (\<lambda>w. ?k (fst (find_box E message_box_xpaths None w))
                                      (snd (find_box E message_box_xpaths None w)))"
    by (rule ext) (simp add: send_body_def split: prod.splits option.splits)
  with silent_seq [of E "find_box E message_box_xpaths None" ?k, OF silent_find_box k]
  show ?thesis
    by simp
qed

lemma send_message_returns: "\<exists>b w1. send_message E message w = (Inr b, w1) \<and> follows E w w1"
proof (cases "cancel_requested w")
  case True
  then show ?thesis
    by (auto simp add: send_message_def follows_refl)
next
  case False
  obtain r1 w1 where a: "send_body E message w = (r1, w1)"
    by (cases "send_body E message w")
  with silent_send_body have fa: "follows E w w1"
    by (rule silentD)
  show ?thesis
  proof (cases r1)
    case (Inl e)
    have "follows E w1 (log E (FailedToSendMessage e) w1)"
      by (simp add: follows_log inner_def is_tally_def)
    with fa have "follows E w (log E (FailedToSendMessage e) w1)"
      by (rule follows_trans)
    with False a Inl show ?thesis
      by (auto simp add: send_message_def)
  next
    case (Inr b)
    with False a fa show ?thesis
      by (simp add: send_message_def)
  qed
qed

lemma follows_delay_loop: "follows E w (delay_loop E n w)"
proof (induction n arbitrary: w)
  case 0
  show ?case by (simp add: follows_refl)
next
  case (Suc n)
  from follows_sleep [of E w 1] Suc [of "sleep E 1 w"]
  have "follows E w (delay_loop E n (sleep E 1 w))"
    by (rule follows_trans)
  then show ?case
    by (simp add: follows_refl)
qed

text \<open>Contacts in flight: the events of the work on one contact, from the line that opens
  it to the wait after the line that tallies it.\<close>

lemma tally_line: "is_tally ev \<Longrightarrow> \<not> is_call ev \<and> \<not> is_sending_to ev"
  by (cases ev rule: is_sent.cases) (auto simp add: is_tally_def elim: is_failed.elims)

lemma opening_line: "is_sending_to ev \<Longrightarrow> \<not> is_call ev \<and> \<not> is_tally ev"
  by (cases ev rule: is_sending_to.cases) (simp_all add: is_tally_def)

lemma inner_filters:
  "list_all inner evs \<Longrightarrow>
     filter is_sending_to evs = [] \<and> filter is_sent evs = [] \<and> filter is_failed evs = []"
  by (induction evs) (simp_all add: inner_def is_tally_def)

lemma in_flight_append: "in_flight b (xs @ ys) = in_flight (in_flight b xs) ys"
  by (induction xs arbitrary: b) simp_all

lemma calls_in_flight_append:
  "calls_in_flight b (xs @ ys) \<longleftrightarrow> calls_in_flight b xs \<and> calls_in_flight (in_flight b xs) ys"
  by (induction xs arbitrary: b) simp_all

lemma in_flight_inner: "list_all inner evs \<Longrightarrow> in_flight b evs = b"
  by (induction evs) (simp_all add: inner_def)

lemma calls_in_flight_inner: "list_all inner evs \<Longrightarrow> calls_in_flight True evs"
  by (induction evs) (simp_all add: inner_def)

lemma calls_in_flight_idle:
  "list_all inner evs \<Longrightarrow> filter is_call evs = [] \<Longrightarrow> calls_in_flight b evs"
  by (induction evs) (auto simp add: inner_def split: if_splits)

lemma no_contact_no_call:
  "calls_in_flight False evs \<Longrightarrow> filter is_sending_to evs = [] \<Longrightarrow> filter is_call evs = []"
  by (induction evs) (auto split: if_splits)

lemma in_flight_closed:
  "filter is_sending_to evs = [] \<Longrightarrow> \<not> in_flight False evs"
  by (induction evs) (auto split: if_splits)

lemma no_call_after_tally:
  "calls_in_flight b evs \<Longrightarrow> filter is_sending_to evs = [] \<Longrightarrow>
     filter is_call (dropWhile (\<lambda>ev. \<not> is_tally ev) evs) = []"
proof (induction evs arbitrary: b)
  case Nil
  show ?case by simp
next
  case (Cons ev evs)
  from Cons.prems(2) have quiet: "\<not> is_sending_to ev" "filter is_sending_to evs = []"
    by (auto split: if_splits)
  show ?case
  proof (cases "is_tally ev")
    case True
    with Cons.prems(1) quiet have "calls_in_flight False evs"
      by simp
    with quiet have "filter is_call evs = []"
      by (simp add: no_contact_no_call)
    with True tally_line [of ev] show ?thesis
      by simp
  next
    case False
    with Cons.prems(1) quiet have "calls_in_flight b evs"
      by simp
    with quiet have "filter is_call (dropWhile (\<lambda>ev. \<not> is_tally ev) evs) = []"
      by (simp add: Cons.IH)
    with False show ?thesis
      by simp
  qed
qed

lemma one_contact:
  assumes "is_sending_to line0" and "list_all inner work" and "is_tally tally"
    and "list_all inner rest" and "filter is_call rest = []"
  shows "calls_in_flight False (line0 # work @ tally # rest)"
    and "\<not> in_flight False (line0 # work @ tally # rest)"
    and "filter is_sending_to (line0 # work @ tally # rest) = [line0]"
    and "filter is_sent (line0 # work @ tally # rest) = filter is_sent [tally]"
    and "filter is_failed (line0 # work @ tally # rest) = filter is_failed [tally]"
proof -
  note o = opening_line [OF assms(1)] and t = tally_line [OF assms(3)]
  have state: "in_flight True (work @ [tally]) = False"
    using assms(2,3) t by (simp add: in_flight_append in_flight_inner)
  have "calls_in_flight True (work @ [tally] @ rest)"
    using assms t state
    by (simp add: calls_in_flight_append calls_in_flight_inner calls_in_flight_idle
        in_flight_inner)
  with assms(1) o show "calls_in_flight False (line0 # work @ tally # rest)"
    by simp
  have "in_flight True (work @ [tally] @ rest) = False"
    using assms(2,3,4) t by (simp add: in_flight_append in_flight_inner)
  with assms(1) show "\<not> in_flight False (line0 # work @ tally # rest)"
    by simp
  from assms(1) have "\<not> is_sent line0" "\<not> is_failed line0"
    by (cases line0 rule: is_sending_to.cases; simp)+
  with assms(1) t inner_filters [OF assms(2)] inner_filters [OF assms(4)]
  show "filter is_sending_to (line0 # work @ tally # rest) = [line0]"
    and "filter is_sent (line0 # work @ tally # rest) = filter is_sent [tally]"
    and "filter is_failed (line0 # work @ tally # rest) = filter is_failed [tally]"
    by simp_all
qed

lemma send_one_returns:
  "\<exists>counts1 wa line.
     send_one E message contact contact_name counts w = (Inr counts1, log E line wa) \<and>
     follows E w wa \<and> is_tally (Log line) \<and>
     fst counts1 = fst counts + length (filter is_sent [Log line]) \<and>
     snd counts1 = snd counts + length (filter is_failed [Log line])"
proof -
  obtain found wa where a: "search_contact E contact_name w = (Inr found, wa)"
    and fa: "follows E w wa"
    using search_contact_returns by blast
  show ?thesis
  proof (cases found)
    case False
    with a have "send_one E message contact contact_name counts w
        = (Inr (fst counts, snd counts + 1), log E (CouldNotFindContactCross contact_name) wa)"
      by (simp add: send_one_def bnd_def)
    with fa show ?thesis
      by (intro exI [of _ "(fst counts, snd counts + 1)"] exI [of _ wa]
          exI [of _ "CouldNotFindContactCross contact_name"]) (simp add: is_tally_def)
  next
    case True
    obtain sent wb
      where b: "send_message E (personalize message contact_name contact) wa = (Inr sent, wb)"
      and "follows E wa wb"
      using send_message_returns by blast
    with fa have fb: "follows E w wb"
      by (auto intro: follows_trans)
    show ?thesis
    proof (cases sent)
      case True
      with a b \<open>found\<close> have "send_one E message contact contact_name counts w
          = (Inr (fst counts + 1, snd counts), log E (MessageSentTo contact_name) wb)"
        by (simp add: send_one_def bnd_def)
      with fb show ?thesis
        by (intro exI [of _ "(fst counts + 1, snd counts)"] exI [of _ wb]
            exI [of _ "MessageSentTo contact_name"]) (simp add: is_tally_def)
    next
      case False
      with a b \<open>found\<close> have "send_one E message contact contact_name counts w
          = (Inr (fst counts, snd counts + 1), log E (FailedToSendMessageTo contact_name) wb)"
        by (simp add: send_one_def bnd_def)
      with fb show ?thesis
        by (intro exI [of _ "(fst counts, snd counts + 1)"] exI [of _ wb]
            exI [of _ "FailedToSendMessageTo contact_name"]) (simp add: is_tally_def)
    qed
  qed
qed

lemma delay_loop_sleeps: "\<exists>k. trace (delay_loop E n w) = trace w @ replicate k (Sleep 1)"
proof (induction n arbitrary: w)
  case 0
  show ?case by simp
next
  case (Suc n)
  show ?case
  proof (cases "cancel_requested w")
    case True
    then have "trace (delay_loop E (Suc n) w) = trace w @ replicate 0 (Sleep 1)"
      by simp
    then show ?thesis ..
  next
    case False
    from Suc [of "sleep E 1 w"] obtain k
      where "trace (delay_loop E n (sleep E 1 w)) = trace (sleep E 1 w) @ replicate k (Sleep 1)"
      by blast
    with False have "trace (delay_loop E (Suc n) w) = trace w @ replicate (Suc k) (Sleep 1)"
      by (simp add: sleep_def emit_def)
    then show ?thesis ..
  qed
qed

text \<open>The loop over the contacts: it ends; it raises only the \<open>KeyError\<close> of a contact
  without a name; it opens at most the contacts it is given, none when it starts with the
  flag set and none after an event during which the user has asked for cancellation; it
  calls the browser only while a contact is in flight; and each contact it has opened adds
  one to exactly one of the two counts, next to the line that tallies it.\<close>

lemma filter_drop_empty: "filter P xs = [] \<Longrightarrow> filter P (drop n xs) = []"
  by (auto simp add: filter_empty_conv dest: in_set_dropD)

lemma stops_short: "length tr \<le> Suc a \<Longrightarrow> stops E a tr"
  by (simp add: stops_def)

lemma bulk_loop_run:
  "\<exists>r w1 evs. bulk_loop E message delay n i contacts counts w = (r, w1) \<and>
     trace w1 = trace w @ evs \<and>
     length (filter is_sending_to evs) \<le> length contacts \<and>
     (cancel_requested w \<longrightarrow> filter is_sending_to evs = []) \<and>
     stops E (length (trace w)) (trace w1) \<and>
     calls_in_flight False evs \<and> \<not> in_flight False evs \<and>
     (case r of
        Inl e \<Rightarrow> e = KeyError \<and> (\<exists>contact\<in>set contacts. map_of contact ''name'' = None)
      | Inr counts1 \<Rightarrow>
          fst counts1 = fst counts + length (filter is_sent evs) \<and>
          snd counts1 = snd counts + length (filter is_failed evs) \<and>
          length (filter is_sent evs) + length (filter is_failed evs)
            = length (filter is_sending_to evs))"
proof (induction contacts arbitrary: i counts w)
  case Nil
  show ?case
    by (simp add: stops_short)
next
  case (Cons contact rest)
  show ?case
  proof (cases "cancel_requested w")
    case True
    then show ?thesis
      by (simp add: log_def emit_def stops_short is_tally_def)
  next
    case False
    show ?thesis
    proof (cases "map_of contact ''name''")
      case None
      with False show ?thesis
        by (simp add: getitem_def stops_short)
    next
      case (Some contact_name)
      let ?line = "Log (SendingTo i n contact_name)"
      let ?w0 = "log E (SendingTo i n contact_name) w"
      have t0: "trace ?w0 = trace w @ [?line]"
        and c0: "cancel_requested ?w0 = cancel_at E (length (trace w))"
        using False by (simp_all add: log_def emit_def)
      obtain counts1 wa tally
        where one: "send_one E message contact contact_name counts ?w0
                      = (Inr counts1, log E tally wa)"
        and fa: "follows E ?w0 wa" and tl: "is_tally (Log tally)"
        and s1: "fst counts1 = fst counts + length (filter is_sent [Log tally])"
        and f1: "snd counts1 = snd counts + length (filter is_failed [Log tally])"
        using send_one_returns by blast
      let ?w1 = "log E tally wa"
      let ?w2 = "delay_loop E (nat delay) ?w1"
      from fa obtain work where ta: "trace wa = trace ?w0 @ work"
        and inner_work: "list_all inner work"
        and ca: "cancel_requested wa
                  = (cancel_requested ?w0 \<or> cancelled_in E (length (trace ?w0)) (length (trace wa)))"
        unfolding follows_def by blast
      have t1: "trace ?w1 = trace wa @ [Log tally]"
        and c1: "cancel_requested ?w1 = (cancel_requested wa \<or> cancel_at E (length (trace wa)))"
        by (simp_all add: log_def emit_def)
      from follows_delay_loop [of E ?w1 "nat delay"] obtain sleeps
        where t2: "trace ?w2 = trace ?w1 @ sleeps" and inner_sleeps: "list_all inner sleeps"
        and c2: "cancel_requested ?w2
                  = (cancel_requested ?w1 \<or> cancelled_in E (length (trace ?w1)) (length (trace ?w2)))"
        unfolding follows_def by blast
      from delay_loop_sleeps [of E "nat delay" ?w1] t2 have idle_sleeps: "filter is_call sleeps = []"
        by auto
      let ?seg = "?line # work @ Log tally # sleeps"
      have seg: "trace ?w2 = trace w @ ?seg"
        using t0 ta t1 t2 by simp
      have opened: "is_sending_to ?line"
        by simp
      note facts = one_contact [OF opened inner_work tl inner_sleeps idle_sleeps]
      have seen: "cancel_requested ?w2" if at: "length (trace w) \<le> t" "cancel_at E t"
        and before: "t < length (trace ?w2)" for t
      proof -
        have lens: "length (trace ?w0) = Suc (length (trace w))"
          "length (trace ?w1) = Suc (length (trace wa))"
          "length (trace ?w0) \<le> length (trace wa)" "length (trace ?w1) \<le> length (trace ?w2)"
          using t0 ta t1 t2 by simp_all
        consider "t = length (trace w)" | "length (trace ?w0) \<le> t \<and> t < length (trace wa)"
          | "t = length (trace wa)" | "length (trace ?w1) \<le> t \<and> t < length (trace ?w2)"
          using at(1) before lens by linarith
        then show ?thesis
        proof cases
          case 1
          with at c0 ca c1 c2 show ?thesis
            by simp
        next
          case 2
          with at have "cancelled_in E (length (trace ?w0)) (length (trace wa))"
            unfolding cancelled_in_def by blast
          with ca c1 c2 show ?thesis
            by simp
        next
          case 3
          with at c1 c2 show ?thesis
            by simp
        next
          case 4
          with at have "cancelled_in E (length (trace ?w1)) (length (trace ?w2))"
            unfolding cancelled_in_def by blast
          with c2 show ?thesis
            by simp
        qed
      qed
      from Cons.IH [of "i + 1" counts1 ?w2] obtain r w3 evs2
        where rest: "bulk_loop E message delay n (i + 1) rest counts1 ?w2 = (r, w3)"
        and t3: "trace w3 = trace ?w2 @ evs2"
        and le: "length (filter is_sending_to evs2) \<le> length rest"
        and idle: "cancel_requested ?w2 \<longrightarrow> filter is_sending_to evs2 = []"
        and stop: "stops E (length (trace ?w2)) (trace w3)"
        and calls: "calls_in_flight False evs2" and closed: "\<not> in_flight False evs2"
        and res: "case r of
             Inl e \<Rightarrow> e = KeyError \<and> (\<exists>contact\<in>set rest. map_of contact ''name'' = None)
           | Inr counts2 \<Rightarrow>
               fst counts2 = fst counts1 + length (filter is_sent evs2) \<and>
               snd counts2 = snd counts1 + length (filter is_failed evs2) \<and>
               length (filter is_sent evs2) + length (filter is_failed evs2)
                 = length (filter is_sending_to evs2)"
        by blast
      let ?evs = "?seg @ evs2"
      have run: "bulk_loop E message delay n i (contact # rest) counts w = (r, w3)"
        using False Some one rest by (simp add: getitem_def)
      have tr: "trace w3 = trace w @ ?evs"
        using seg t3 by simp
      have quiet_seg: "filter is_sending_to (work @ Log tally # sleeps) = []"
        using inner_filters [OF inner_work] inner_filters [OF inner_sleeps] tally_line [OF tl]
        by simp
      have count: "filter is_sending_to ?evs = ?line # filter is_sending_to evs2"
      proof -
        have "?evs = ?line # (work @ Log tally # sleeps) @ evs2"
          by simp
        then have "filter is_sending_to ?evs
            = ?line # filter is_sending_to (work @ Log tally # sleeps) @ filter is_sending_to evs2"
          by (simp only: filter.simps filter_append is_sending_to.simps if_True)
        then show ?thesis
          by (simp only: quiet_seg append_Nil)
      qed
      have sent: "filter is_sent ?evs = filter is_sent [Log tally] @ filter is_sent evs2"
        and failed: "filter is_failed ?evs = filter is_failed [Log tally] @ filter is_failed evs2"
        using inner_filters [OF inner_work] inner_filters [OF inner_sleeps] by simp_all
      have one_tally: "length (filter is_sent [Log tally]) + length (filter is_failed [Log tally]) = 1"
        using tl by (cases tally) (simp_all add: is_tally_def)
      have stop3: "stops E (length (trace w)) (trace w3)"
        unfolding stops_def
      proof (intro allI impI)
        fix t
        assume at: "length (trace w) \<le> t \<and> cancel_at E t"
        show "filter is_sending_to (drop (Suc t) (trace w3)) = []"
        proof (cases "length (trace ?w2) \<le> t")
          case True
          with stop at show ?thesis
            by (simp add: stops_def)
        next
          case late: False
          with at have "cancel_requested ?w2"
            by (intro seen [of t]) simp_all
          with idle have quiet_rest: "filter is_sending_to evs2 = []"
            by simp
          have "filter is_sending_to ((work @ Log tally # sleeps) @ evs2)
              = filter is_sending_to (work @ Log tally # sleeps) @ filter is_sending_to evs2"
            by (rule filter_append)
          then have "filter is_sending_to ((work @ Log tally # sleeps) @ evs2) = []"
            by (simp only: quiet_seg quiet_rest append_Nil)
          then have "filter is_sending_to
              (drop (t - length (trace w)) ((work @ Log tally # sleeps) @ evs2)) = []"
            by (rule filter_drop_empty)
          moreover from at have "drop (Suc t) (trace w @ ?line # (work @ Log tally # sleeps) @ evs2)
              = drop (t - length (trace w)) ((work @ Log tally # sleeps) @ evs2)"
            by (simp add: Suc_diff_le)
          ultimately show ?thesis
            using tr by simp
        qed
      qed
      have flight: "calls_in_flight False ?evs" and closed3: "\<not> in_flight False ?evs"
        using facts(1,2) calls closed
        by (simp_all only: calls_in_flight_append in_flight_append simp_thms)
      have result: "case r of
             Inl e \<Rightarrow> e = KeyError \<and> (\<exists>contact\<in>set (contact # rest). map_of contact ''name'' = None)
           | Inr counts2 \<Rightarrow>
               fst counts2 = fst counts + length (filter is_sent ?evs) \<and>
               snd counts2 = snd counts + length (filter is_failed ?evs) \<and>
               length (filter is_sent ?evs) + length (filter is_failed ?evs)
                 = length (filter is_sending_to ?evs)"
      proof (cases r)
        case (Inl e)
        with res show ?thesis
          by simp
      next
        case (Inr counts2)
        with res s1 f1 one_tally show ?thesis
          unfolding sent failed count by simp
      qed
      have c3: "length (filter is_sending_to ?evs) \<le> length (contact # rest)"
        using le count by simp
      have c4: "cancel_requested w \<longrightarrow> filter is_sending_to ?evs = []"
        using False by simp
      show ?thesis
        by (intro exI [of _ r] exI [of _ w3] exI [of _ ?evs] conjI)
          (rule run tr c3 c4 stop3 flight closed3 result)+
    qed
  qed
qed

lemma after_cancellation:
  assumes "calls_in_flight False evs" and "filter is_sending_to (drop n evs) = []"
  shows "filter is_call (dropWhile (\<lambda>ev. \<not> is_tally ev) (drop n evs)) = [] \<and>
         (\<not> in_flight False (take n evs) \<longrightarrow> filter is_call (drop n evs) = [])"
proof -
  from assms(1) have "calls_in_flight False (take n evs @ drop n evs)"
    by simp
  then have tail: "calls_in_flight (in_flight False (take n evs)) (drop n evs)"
    by (simp only: calls_in_flight_append)
  from tail assms(2)
  have "filter is_call (dropWhile (\<lambda>ev. \<not> is_tally ev) (drop n evs)) = []"
    by (rule no_call_after_tally)
  moreover have "filter is_call (drop n evs) = []" if "\<not> in_flight False (take n evs)"
    using tail that assms(2) by (simp add: no_contact_no_call)
  ultimately show ?thesis
    by blast
qed

lemma run_summary:
  assumes tr: "trace w1 = trace w @ evs"
    and flight: "calls_in_flight False evs"
    and stop: "\<And>t. length (trace w) \<le> t \<Longrightarrow> cancel_at E t \<Longrightarrow>
                 filter is_sending_to (drop (Suc t) (trace w1)) = []"
    and idle: "cancel_requested w \<longrightarrow> filter is_sending_to evs = []"
  shows "\<forall>t. length (trace w) \<le> t \<and> cancel_at E t \<longrightarrow>
          filter is_sending_to (drop (Suc t) (trace w1)) = [] \<and>
          filter is_call (dropWhile (\<lambda>ev. \<not> is_tally ev) (drop (Suc t) (trace w1))) = [] \<and>
          (\<not> in_flight False (take (Suc t - length (trace w)) evs) \<longrightarrow>
             filter is_call (drop (Suc t) (trace w1)) = [])"
    and "cancel_requested w \<longrightarrow> filter is_sending_to evs = [] \<and> filter is_call evs = []"
proof -
  show "\<forall>t. length (trace w) \<le> t \<and> cancel_at E t \<longrightarrow>
          filter is_sending_to (drop (Suc t) (trace w1)) = [] \<and>
          filter is_call (dropWhile (\<lambda>ev. \<not> is_tally ev) (drop (Suc t) (trace w1))) = [] \<and>
          (\<not> in_flight False (take (Suc t - length (trace w)) evs) \<longrightarrow>
             filter is_call (drop (Suc t) (trace w1)) = [])"
  proof (intro conjI allI impI)
    fix t
    assume at: "length (trace w) \<le> t \<and> cancel_at E t"
    then have tail: "drop (Suc t) (trace w1) = drop (Suc t - length (trace w)) evs"
      using tr by simp
    from at show quiet: "filter is_sending_to (drop (Suc t) (trace w1)) = []"
      by (simp add: stop)
    then have "filter is_sending_to (drop (Suc t - length (trace w)) evs) = []"
      by (simp only: tail)
    note after = after_cancellation [OF flight this]
    from after have "filter is_call
        (dropWhile (\<lambda>ev. \<not> is_tally ev) (drop (Suc t - length (trace w)) evs)) = []"
      by (rule conjunct1)
    then show "filter is_call (dropWhile (\<lambda>ev. \<not> is_tally ev) (drop (Suc t) (trace w1))) = []"
      by (simp only: tail)
    assume closed: "\<not> in_flight False (take (Suc t - length (trace w)) evs)"
    from after have "\<not> in_flight False (take (Suc t - length (trace w)) evs) \<longrightarrow>
        filter is_call (drop (Suc t - length (trace w)) evs) = []"
      by (rule conjunct2)
    from this closed have "filter is_call (drop (Suc t - length (trace w)) evs) = []"
      by (rule mp)
    then show "filter is_call (drop (Suc t) (trace w1)) = []"
      by (simp only: tail)
  qed
  show "cancel_requested w \<longrightarrow> filter is_sending_to evs = [] \<and> filter is_call evs = []"
  proof (intro conjI impI)
    assume "cancel_requested w"
    with idle show quiet: "filter is_sending_to evs = []"
      by simp
    from flight quiet show "filter is_call evs = []"
      by (rule no_contact_no_call)
  qed
qed

text \<open>Claim C5: for every list of contacts and every behaviour of the browser and of the
  user, \<open>send_bulk_messages\<close> ends. Every call of the browser in the run is made while a
  contact is in flight, that is between the line "[i/n] Sending to: ..." that opens the
  contact, just before its search, and the line that tallies it. When the user asks for
  cancellation during the event of time \<open>t\<close> of the run, no contact is opened after that
  event; the browser is called after it only for the contact in flight at that time: not
  at all when no contact is in flight, and not after the line that tallies a contact. So
  the contact in flight may be finished, and no further contact is searched for. When the
  flag is set as the run starts, no contact is opened and the browser is not called. At
  most \<open>len(contacts)\<close> contacts are opened. With \<open>self.log\<close> returning normally, as it
  does in this model, the function raises only the \<open>KeyError\<close> of a contact without a name;
  otherwise the last line of a run on a list that is not empty reports \<open>success_count\<close>,
  the number of lines "Message sent to", and \<open>fail_count\<close>, the number of lines "Failed to
  send message to" and "Could not find contact", and their sum is the number of contacts
  that were opened.\<close>

theorem cooperative_cancellation:
  "\<exists>r w1 evs. send_bulk_messages E contacts message delay w = (r, w1) \<and>
     trace w1 = trace w @ evs \<and>
     calls_in_flight False evs \<and>
     ((\<forall>t. length (trace w) \<le> t \<and> cancel_at E t \<longrightarrow>
          filter is_sending_to (drop (Suc t) (trace w1)) = [] \<and>
          filter is_call (dropWhile (\<lambda>ev. \<not> is_tally ev) (drop (Suc t) (trace w1))) = [] \<and>
          (\<not> in_flight False (take (Suc t - length (trace w)) evs) \<longrightarrow>
             filter is_call (drop (Suc t) (trace w1)) = [])) \<and>
      (cancel_requested w \<longrightarrow> filter is_sending_to evs = [] \<and> filter is_call evs = [])) \<and>
     length (filter is_sending_to evs) \<le> length contacts \<and>
     (case r of
        Inl e \<Rightarrow> e = KeyError \<and> (\<exists>contact\<in>set contacts. map_of contact ''name'' = None)
      | Inr u \<Rightarrow> contacts \<noteq> [] \<longrightarrow>
          (\<exists>success_count fail_count.
             last evs = Log (Done success_count fail_count) \<and>
             success_count = length (filter is_sent evs) \<and>
             fail_count = length (filter is_failed evs) \<and>
             success_count + fail_count = length (filter is_sending_to evs)))"
proof (cases "contacts = []")
  case True
  let ?w1 = "log E NoContactsFound w"
  let ?evs = "[Log NoContactsFound]"
  have run: "send_bulk_messages E contacts message delay w = (Inr (), ?w1)"
    using True by (simp add: send_bulk_messages_def)
  have tr: "trace ?w1 = trace w @ ?evs"
    by (simp add: log_def emit_def)
  have flight: "calls_in_flight False ?evs"
    by (simp add: is_tally_def)
  have stop: "filter is_sending_to (drop (Suc t) (trace ?w1)) = []"
    if "length (trace w) \<le> t" "cancel_at E t" for t
    using that tr by simp
  have idle: "cancel_requested w \<longrightarrow> filter is_sending_to ?evs = []"
    by simp
  note summary = run_summary [of ?w1 w ?evs E, OF tr flight stop idle]
  have s1: "\<forall>t. length (trace w) \<le> t \<and> cancel_at E t \<longrightarrow>
          filter is_sending_to (drop (Suc t) (trace ?w1)) = [] \<and>
          filter is_call (dropWhile (\<lambda>ev. \<not> is_tally ev) (drop (Suc t) (trace ?w1))) = [] \<and>
          (\<not> in_flight False (take (Suc t - length (trace w)) ?evs) \<longrightarrow>
             filter is_call (drop (Suc t) (trace ?w1)) = [])"
    by (rule summary(1))
  have s2: "cancel_requested w \<longrightarrow>
      filter is_sending_to ?evs = [] \<and> filter is_call ?evs = []"
    by (rule summary(2))
  have c5: "length (filter is_sending_to ?evs) \<le> length contacts"
    by simp
  have c6: "case Inr () of
        Inl e \<Rightarrow> e = KeyError \<and> (\<exists>contact\<in>set contacts. map_of contact ''name'' = None)
      | Inr u \<Rightarrow> contacts \<noteq> [] \<longrightarrow>
          (\<exists>success_count fail_count.
             last ?evs = Log (Done success_count fail_count) \<and>
             success_count = length (filter is_sent ?evs) \<and>
             fail_count = length (filter is_failed ?evs) \<and>
             success_count + fail_count = length (filter is_sending_to ?evs))"
    using True by simp
  show ?thesis
    by (intro exI [of _ "Inr ()"] exI [of _ ?w1] exI [of _ ?evs] conjI)
      (fact run tr flight s1 s2 c5 c6)+
next
  case False
  let ?first = "Log (SendingMessagesTo (length contacts))"
  let ?w0 = "log E (SendingMessagesTo (length contacts)) w"
  have t0: "trace ?w0 = trace w @ [?first]"
    and c0: "cancel_requested ?w0 = (cancel_requested w \<or> cancel_at E (length (trace w)))"
    by (simp_all add: log_def emit_def)
  from bulk_loop_run [of E message delay "length contacts" 1 contacts "(0, 0)" ?w0]
  obtain r w1 evs
    where loop: "bulk_loop E message delay (length contacts) 1 contacts (0, 0) ?w0 = (r, w1)"
    and t1: "trace w1 = trace ?w0 @ evs"
    and le: "length (filter is_sending_to evs) \<le> length contacts"
    and idle0: "cancel_requested ?w0 \<longrightarrow> filter is_sending_to evs = []"
    and stop0: "stops E (length (trace ?w0)) (trace w1)"
    and flight0: "calls_in_flight False evs" and closed0: "\<not> in_flight False evs"
    and res0: "case r of
        Inl e \<Rightarrow> e = KeyError \<and> (\<exists>contact\<in>set contacts. map_of contact ''name'' = None)
      | Inr counts1 \<Rightarrow>
          fst counts1 = fst (0::nat, 0::nat) + length (filter is_sent evs) \<and>
          snd counts1 = snd (0::nat, 0::nat) + length (filter is_failed evs) \<and>
          length (filter is_sent evs) + length (filter is_failed evs)
            = length (filter is_sending_to evs)"
    by blast
  have early: "filter is_sending_to (drop (Suc t) (trace w1)) = []"
    if at: "length (trace w) \<le> t" "cancel_at E t" for t
  proof (cases "t = length (trace w)")
    case True
    with at c0 idle0 have "filter is_sending_to evs = []"
      by simp
    with True t0 t1 show ?thesis
      by simp
  next
    case False
    with at t0 stop0 show ?thesis
      by (simp add: stops_def)
  qed
  have general: "\<exists>evs1. trace w2 = trace w @ evs1 \<and> calls_in_flight False evs1 \<and>
     ((\<forall>t. length (trace w) \<le> t \<and> cancel_at E t \<longrightarrow>
          filter is_sending_to (drop (Suc t) (trace w2)) = [] \<and>
          filter is_call (dropWhile (\<lambda>ev. \<not> is_tally ev) (drop (Suc t) (trace w2))) = [] \<and>
          (\<not> in_flight False (take (Suc t - length (trace w)) evs1) \<longrightarrow>
             filter is_call (drop (Suc t) (trace w2)) = [])) \<and>
      (cancel_requested w \<longrightarrow> filter is_sending_to evs1 = [] \<and> filter is_call evs1 = [])) \<and>
     length (filter is_sending_to evs1) \<le> length contacts \<and>
     evs1 = ?first # evs @ closing \<and>
     filter is_sending_to evs1 = filter is_sending_to evs \<and>
     filter is_sent evs1 = filter is_sent evs \<and> filter is_failed evs1 = filter is_failed evs"
    if t2: "trace w2 = trace w1 @ closing" and closing: "closing = [] \<or> (\<exists>s f. closing = [Log (Done s f)])"
    for w2 closing
  proof -
    let ?evs = "?first # evs @ closing"
    have tr: "trace w2 = trace w @ ?evs"
      using t0 t1 t2 by simp
    have q: "filter is_sending_to closing = []" "filter is_sent closing = []"
      "filter is_failed closing = []" "calls_in_flight False closing"
      using closing by (auto simp add: is_tally_def)
    have same: "filter is_sending_to ?evs = filter is_sending_to evs"
      "filter is_sent ?evs = filter is_sent evs" "filter is_failed ?evs = filter is_failed evs"
      using q by simp_all
    have "calls_in_flight False (evs @ closing)"
      using flight0 closed0 q(4) by (simp add: calls_in_flight_append)
    then have flight: "calls_in_flight False ?evs"
      by (simp add: is_tally_def)
    have stop: "filter is_sending_to (drop (Suc t) (trace w2)) = []"
      if at: "length (trace w) \<le> t" "cancel_at E t" for t
    proof -
      have "filter is_sending_to (drop n closing) = []" for n
        using q(1) by (rule filter_drop_empty)
      with early [OF at] t2 show ?thesis
        by simp
    qed
    have idle: "cancel_requested w \<longrightarrow> filter is_sending_to ?evs = []"
      using idle0 c0 same(1) by simp
    note summary = run_summary [of w2 w ?evs E, OF tr flight stop idle]
    have s1: "\<forall>t. length (trace w) \<le> t \<and> cancel_at E t \<longrightarrow>
          filter is_sending_to (drop (Suc t) (trace w2)) = [] \<and>
          filter is_call (dropWhile (\<lambda>ev. \<not> is_tally ev) (drop (Suc t) (trace w2))) = [] \<and>
          (\<not> in_flight False (take (Suc t - length (trace w)) ?evs) \<longrightarrow>
             filter is_call (drop (Suc t) (trace w2)) = [])"
      by (rule summary(1))
    have s2: "cancel_requested w \<longrightarrow>
        filter is_sending_to ?evs = [] \<and> filter is_call ?evs = []"
      by (rule summary(2))
    have bound: "length (filter is_sending_to ?evs) \<le> length contacts"
      using le same(1) by simp
    show ?thesis
      by (intro exI [of _ ?evs] conjI) (fact tr flight s1 s2 bound refl same)+
  qed
  show ?thesis
  proof (cases r)
    case (Inl e)
    from False loop Inl have run: "send_bulk_messages E contacts message delay w = (Inl e, w1)"
      by (simp add: send_bulk_messages_def)
    from general [of w1 "[]"] obtain evs1 where tr: "trace w1 = trace w @ evs1"
      and flight: "calls_in_flight False evs1"
      and s1: "\<forall>t. length (trace w) \<le> t \<and> cancel_at E t \<longrightarrow>
          filter is_sending_to (drop (Suc t) (trace w1)) = [] \<and>
          filter is_call (dropWhile (\<lambda>ev. \<not> is_tally ev) (drop (Suc t) (trace w1))) = [] \<and>
          (\<not> in_flight False (take (Suc t - length (trace w)) evs1) \<longrightarrow>
             filter is_call (drop (Suc t) (trace w1)) = [])"
      and s2: "cancel_requested w \<longrightarrow> filter is_sending_to evs1 = [] \<and> filter is_call evs1 = []"
      and bound: "length (filter is_sending_to evs1) \<le> length contacts"
      by auto
    have c6: "case Inl e of
        Inl e \<Rightarrow> e = KeyError \<and> (\<exists>contact\<in>set contacts. map_of contact ''name'' = None)
      | Inr u \<Rightarrow> contacts \<noteq> [] \<longrightarrow>
          (\<exists>success_count fail_count.
             last evs1 = Log (Done success_count fail_count) \<and>
             success_count = length (filter is_sent evs1) \<and>
             fail_count = length (filter is_failed evs1) \<and>
             success_count + fail_count = length (filter is_sending_to evs1))"
      using res0 Inl by simp
    show ?thesis
      by (intro exI [of _ "Inl e"] exI [of _ w1] exI [of _ evs1] conjI)
        (fact run tr flight s1 s2 bound c6)+
  next
    case (Inr counts1)
    let ?last = "Log (Done (fst counts1) (snd counts1))"
    let ?w2 = "(log E (Done (fst counts1) (snd counts1)) w1)\<lparr>is_running := False\<rparr>"
    have t2: "trace ?w2 = trace w1 @ [?last]"
      by (simp add: log_def emit_def)
    from False loop Inr have run: "send_bulk_messages E contacts message delay w = (Inr (), ?w2)"
      by (simp add: send_bulk_messages_def split_beta)
    from general [of ?w2 "[?last]", OF t2] obtain evs1 where tr: "trace ?w2 = trace w @ evs1"
      and flight: "calls_in_flight False evs1"
      and s1: "\<forall>t. length (trace w) \<le> t \<and> cancel_at E t \<longrightarrow>
          filter is_sending_to (drop (Suc t) (trace ?w2)) = [] \<and>
          filter is_call (dropWhile (\<lambda>ev. \<not> is_tally ev) (drop (Suc t) (trace ?w2))) = [] \<and>
          (\<not> in_flight False (take (Suc t - length (trace w)) evs1) \<longrightarrow>
             filter is_call (drop (Suc t) (trace ?w2)) = [])"
      and s2: "cancel_requested w \<longrightarrow> filter is_sending_to evs1 = [] \<and> filter is_call evs1 = []"
      and bound: "length (filter is_sending_to evs1) \<le> length contacts"
      and shape: "evs1 = ?first # evs @ [?last]"
      and same: "filter is_sending_to evs1 = filter is_sending_to evs"
        "filter is_sent evs1 = filter is_sent evs" "filter is_failed evs1 = filter is_failed evs"
      by blast
    from res0 Inr have counts: "fst counts1 = length (filter is_sent evs)"
      "snd counts1 = length (filter is_failed evs)"
      "length (filter is_sent evs) + length (filter is_failed evs)
         = length (filter is_sending_to evs)"
      by simp_all
    have "last evs1 = ?last"
      unfolding shape by simp
    with counts same
    have "last evs1 = Log (Done (fst counts1) (snd counts1)) \<and>
             fst counts1 = length (filter is_sent evs1) \<and>
             snd counts1 = length (filter is_failed evs1) \<and>
             fst counts1 + snd counts1 = length (filter is_sending_to evs1)"
      by simp
    then have c6: "case Inr () of
        Inl e \<Rightarrow> e = KeyError \<and> (\<exists>contact\<in>set contacts. map_of contact ''name'' = None)
      | Inr u \<Rightarrow> contacts \<noteq> [] \<longrightarrow>
          (\<exists>success_count fail_count.
             last evs1 = Log (Done success_count fail_count) \<and>
             success_count = length (filter is_sent evs1) \<and>
             fail_count = length (filter is_failed evs1) \<and>
             success_count + fail_count = length (filter is_sending_to evs1))"
      by (simp del: last.simps)
    show ?thesis
      by (intro exI [of _ "Inr ()"] exI [of _ ?w2] exI [of _ evs1] conjI)
        (fact run tr flight s1 s2 bound c6)+
  qed
qed

text \<open>With two contacts, a browser in which every search has a result and a user who
  cancels while the message box for the first contact is looked for: that contact is in
  flight, eight more calls of the browser finish its message, which is counted, and the
  second contact is never opened.\<close>

theorem cooperative_cancellation_witness:
  "cancel_at impatient 12 \<and>
   fst (send_bulk_messages impatient [[(''name'', ''Ana'')], [(''name'', ''Bob'')]] ''Hi'' 1 started)
     = Inr () \<and>
   filter is_log (trace (snd (send_bulk_messages impatient
       [[(''name'', ''Ana'')], [(''name'', ''Bob'')]] ''Hi'' 1 started))) =
     [Log (SendingMessagesTo 2), Log (SendingTo 1 2 ''Ana''), Log (SearchingForContact ''Ana''),
      Log (MessageSentTo ''Ana''), Log OperationCancelled, Log (Done 1 0)] \<and>
   in_flight False (take (Suc 12) (trace (snd (send_bulk_messages impatient
       [[(''name'', ''Ana'')], [(''name'', ''Bob'')]] ''Hi'' 1 started)))) \<and>
   length (filter is_call (drop (Suc 12) (trace (snd (send_bulk_messages impatient
       [[(''name'', ''Ana'')], [(''name'', ''Bob'')]] ''Hi'' 1 started))))) = 8 \<and>
   filter is_sending_to (drop (Suc 12) (trace (snd (send_bulk_messages impatient
       [[(''name'', ''Ana'')], [(''name'', ''Bob'')]] ''Hi'' 1 started)))) = [] \<and>
   filter is_call (dropWhile (\<lambda>ev. \<not> is_tally ev) (drop (Suc 12) (trace (snd
       (send_bulk_messages impatient [[(''name'', ''Ana'')], [(''name'', ''Bob'')]] ''Hi'' 1
          started))))) = []"
proof -
  let ?contacts = "[[(''name'', ''Ana'')], [(''name'', ''Bob'')]]"
  let ?run = "send_bulk_messages impatient ?contacts ''Hi'' 1 started"
  have at: "cancel_at impatient 12"
    by (simp add: impatient_def flaky_def quiet_def)
  have run: "fst ?run = Inr () \<and>
   filter is_log (trace (snd ?run)) =
     [Log (SendingMessagesTo 2), Log (SendingTo 1 2 ''Ana''), Log (SearchingForContact ''Ana''),
      Log (MessageSentTo ''Ana''), Log OperationCancelled, Log (Done 1 0)] \<and>
   in_flight False (take (Suc 12) (trace (snd ?run))) \<and>
   length (filter is_call (drop (Suc 12) (trace (snd ?run)))) = 8"
    by (simp add: send_bulk_messages_def getitem_def send_one_def personalize_def placeholder_def
      search_contact_def search_body_def search_xpath_def wait_until_def is_displayed_def
      clear_def send_keys_def bnd_def find_and_click_def open_chat_def xpath_patterns_def
      find_elements_def click_def log_def sleep_def emit_def impatient_def flaky_def quiet_def
      started_def search_text_def is_phone_def isdigit_def is_digit_char_def is_tally_def
      send_message_def send_body_def message_box_xpaths_def dismiss_popup_def popup_buttons_def)
  from cooperative_cancellation [of impatient ?contacts "''Hi''" 1 started]
  obtain r w1 where out: "?run = (r, w1)"
    and stop: "\<forall>t. length (trace started) \<le> t \<and> cancel_at impatient t \<longrightarrow>
          filter is_sending_to (drop (Suc t) (trace w1)) = [] \<and>
          filter is_call (dropWhile (\<lambda>ev. \<not> is_tally ev) (drop (Suc t) (trace w1))) = []"
    by blast
  from stop have "length (trace started) \<le> 12 \<and> cancel_at impatient 12 \<longrightarrow>
          filter is_sending_to (drop (Suc 12) (trace w1)) = [] \<and>
          filter is_call (dropWhile (\<lambda>ev. \<not> is_tally ev) (drop (Suc 12) (trace w1))) = []"
    by (rule spec)
  with at have "filter is_sending_to (drop (Suc 12) (trace w1)) = [] \<and>
          filter is_call (dropWhile (\<lambda>ev. \<not> is_tally ev) (drop (Suc 12) (trace w1))) = []"
    by (simp add: started_def)
  with out have "filter is_sending_to (drop (Suc 12) (trace (snd ?run))) = [] \<and>
          filter is_call (dropWhile (\<lambda>ev. \<not> is_tally ev) (drop (Suc 12) (trace (snd ?run)))) = []"
    by simp
  with at run show ?thesis
    by blast
qed

end
